theory Spec2Isabelle
  imports Main
begin

section \<open>Values\<close>

text \<open>
  The values the library inspects.  An object carries its identity (what \<^verbatim>\<open>===\<close>
  compares), its prototype (\<^verbatim>\<open>Object.getPrototypeOf\<close>, \<open>None\<close> for \<^verbatim>\<open>null\<close>) and its own
  enumerable string-keyed data properties in the order \<^verbatim>\<open>Object.keys\<close> lists them.
  The library never writes to an object it did not allocate itself, so objects are
  immutable values here.  A function value is its identity; what it does when called is
  looked up in an environment.  Numbers are restricted to the integers (those that are
  JavaScript numbers); symbols,
  accessors (but for \<^verbatim>\<open>__proto__\<close> of \<^verbatim>\<open>Object.prototype\<close>, where the code assigns to a
  key) and non-enumerable own properties are outside the model.
\<close>

datatype jsval =
    VUndefined
  | VNull
  | VBool bool
  | VNum int
  | VStr string
  | VFun nat
  | VObj obj
and obj = Obj (ident: nat) (proto: "obj option") (props: "(string \<times> jsval) list")

text \<open>Thrown values are \<^verbatim>\<open>Error\<close> and \<^verbatim>\<open>TypeError\<close> objects, identified by their message.\<close>

datatype error = Error string | TypeError string

definition typeof :: "jsval \<Rightarrow> string" where
  "typeof v = (case v of
      VUndefined \<Rightarrow> ''undefined''
    | VNull \<Rightarrow> ''object''
    | VBool b \<Rightarrow> ''boolean''
    | VNum n \<Rightarrow> ''number''
    | VStr s \<Rightarrow> ''string''
    | VFun f \<Rightarrow> ''function''
    | VObj ob \<Rightarrow> ''object'')"

text \<open>\<^verbatim>\<open>a === b\<close>: primitives by value, objects and functions by identity.\<close>

fun strict_eq :: "jsval \<Rightarrow> jsval \<Rightarrow> bool" where
  "strict_eq (VObj a) (VObj b) = (ident a = ident b)"
| "strict_eq (VObj a) v = False"
| "strict_eq v (VObj b) = False"
| "strict_eq v w = (v = w)"

definition getPrototypeOf :: "obj \<Rightarrow> obj option" where
  "getPrototypeOf ob = proto ob"

section \<open>isPlainObject (src/src/utils/isPlainObject.js)\<close>

text \<open>
  The loop \<^verbatim>\<open>while (Object.getPrototypeOf(proto) !== null) proto = Object.getPrototypeOf(proto)\<close>,
  started at \<open>proto\<close>; it returns the last object of the prototype chain.
\<close>

fun isPlainObject_loop :: "obj \<Rightarrow> obj" where
  "isPlainObject_loop (Obj i None ps) = Obj i None ps"
| "isPlainObject_loop (Obj i (Some p) ps) = isPlainObject_loop p"

definition isPlainObject :: "jsval \<Rightarrow> bool" where
  "isPlainObject v =
     (if typeof v \<noteq> ''object'' \<or> v = VNull then False
      else (case v of
          VObj ob \<Rightarrow>
            (let proto = isPlainObject_loop ob
             in (case getPrototypeOf ob of
                   None \<Rightarrow> False
                 | Some p \<Rightarrow> ident p = ident proto))
        | _ \<Rightarrow> False))"

text \<open>The objects of a prototype chain, from the object itself up to the root.\<close>

fun proto_chain :: "obj \<Rightarrow> obj list" where
  "proto_chain (Obj i None ps) = [Obj i None ps]"
| "proto_chain (Obj i (Some p) ps) = Obj i (Some p) ps # proto_chain p"

text \<open>No object is its own ancestor: the identities along a chain are distinct.\<close>

definition acyclic_protos :: "obj \<Rightarrow> bool" where
  "acyclic_protos ob = distinct (map ident (proto_chain ob))"


section \<open>Property access and conversions\<close>

text \<open>
  What the host gives and the repository does not define: the realm's
  \<^verbatim>\<open>Object.prototype\<close> (its identity and properties; its own prototype is \<^verbatim>\<open>null\<close>), the
  property reads and \<^verbatim>\<open>Object.keys\<close> of primitives and functions (through their wrapper
  objects), \<^verbatim>\<open>String(v)\<close> of an object or function (its \<^verbatim>\<open>toString\<close>, which may throw) and
  of a number that is printed with an exponent, the class name that
  \<^verbatim>\<open>{}.toString.call(v).match(/\s([a-z|A-Z]+)/)[1]\<close> finds for an object or function, and
  \<^verbatim>\<open>process.env.NODE_ENV\<close>.
\<close>

record host =
  Object_prototype_ident :: nat
  Object_prototype_props :: "(string \<times> jsval) list"
  wrapper_get :: "jsval \<Rightarrow> string \<Rightarrow> jsval"
  wrapper_keys :: "jsval \<Rightarrow> string list"
  host_String :: "jsval \<Rightarrow> error + string"
  class_name :: "jsval \<Rightarrow> string"
  NODE_ENV :: jsval

definition Object_prototype :: "host \<Rightarrow> obj" where
  "Object_prototype h = Obj (Object_prototype_ident h) None (Object_prototype_props h)"

text \<open>An object literal \<^verbatim>\<open>{k1: v1, ...}\<close>, allocated with identity \<open>i\<close>.\<close>

definition object_literal :: "host \<Rightarrow> nat \<Rightarrow> (string \<times> jsval) list \<Rightarrow> jsval" where
  "object_literal h i ps = VObj (Obj i (Some (Object_prototype h)) ps)"

text \<open>A property read on an object: own properties first, then the prototype chain.\<close>

fun obj_get :: "obj \<Rightarrow> string \<Rightarrow> jsval" where
  "obj_get (Obj i None ps) k = (case map_of ps k of Some v \<Rightarrow> v | None \<Rightarrow> VUndefined)"
| "obj_get (Obj i (Some p) ps) k = (case map_of ps k of Some v \<Rightarrow> v | None \<Rightarrow> obj_get p k)"

text \<open>\<^verbatim>\<open>v[k]\<close> and \<^verbatim>\<open>v.k\<close>: a read on \<^verbatim>\<open>undefined\<close> or \<^verbatim>\<open>null\<close> throws.\<close>

definition member :: "host \<Rightarrow> jsval \<Rightarrow> string \<Rightarrow> error + jsval" where
  "member h v k = (case v of
      VUndefined \<Rightarrow> Inl (TypeError ''Cannot read properties of undefined'')
    | VNull \<Rightarrow> Inl (TypeError ''Cannot read properties of null'')
    | VObj ob \<Rightarrow> Inr (obj_get ob k)
    | _ \<Rightarrow> Inr (wrapper_get h v k))"

definition Object_keys :: "host \<Rightarrow> jsval \<Rightarrow> error + string list" where
  "Object_keys h v = (case v of
      VUndefined \<Rightarrow> Inl (TypeError ''Cannot convert undefined or null to object'')
    | VNull \<Rightarrow> Inl (TypeError ''Cannot convert undefined or null to object'')
    | VObj ob \<Rightarrow> Inr (map fst (props ob))
    | _ \<Rightarrow> Inr (wrapper_keys h v))"

text \<open>
  \<^verbatim>\<open>o[k] = v\<close> on an object the code has made with \<^verbatim>\<open>{}\<close>: an existing key keeps its
  place, a new key goes last.  \<^verbatim>\<open>__proto__\<close> is no key of such an object: the name is an
  accessor of \<^verbatim>\<open>Object.prototype\<close>, and the assignment calls its setter, which adds no
  property (it makes \<open>v\<close> the prototype of \<open>o\<close> when \<open>v\<close> is an object, a function or
  \<^verbatim>\<open>null\<close>).
\<close>

fun assign_own :: "(string \<times> 'a) list \<Rightarrow> string \<Rightarrow> 'a \<Rightarrow> (string \<times> 'a) list" where
  "assign_own [] k v = [(k, v)]"
| "assign_own (p # ps) k v = (if fst p = k then (k, v) # ps else p # assign_own ps k v)"

definition assign :: "(string \<times> 'a) list \<Rightarrow> string \<Rightarrow> 'a \<Rightarrow> (string \<times> 'a) list" where
  "assign ps k v = (if k = ''__proto__'' then ps else assign_own ps k v)"

definition truthy :: "jsval \<Rightarrow> bool" where
  "truthy v = (case v of
      VUndefined \<Rightarrow> False
    | VNull \<Rightarrow> False
    | VBool b \<Rightarrow> b
    | VNum n \<Rightarrow> n \<noteq> 0
    | VStr s \<Rightarrow> s \<noteq> []
    | VFun f \<Rightarrow> True
    | VObj ob \<Rightarrow> True)"

fun string_of_nat :: "nat \<Rightarrow> string" where
  "string_of_nat n =
     (if n < 10 then [char_of (48 + n)]
      else string_of_nat (n div 10) @ [char_of (48 + n mod 10)])"

definition string_of_int :: "int \<Rightarrow> string" where
  "string_of_int n = (if n < 0 then ''-'' @ string_of_nat (nat (- n)) else string_of_nat (nat n))"

text \<open>
  \<^verbatim>\<open>String(v)\<close>.  An integer below \<^verbatim>\<open>1e21\<close> in absolute value is printed in decimal; from
  there on the digits are followed by an exponent, which is left to the host.
\<close>

definition js_String :: "host \<Rightarrow> jsval \<Rightarrow> error + string" where
  "js_String h v = (case v of
      VUndefined \<Rightarrow> Inr ''undefined''
    | VNull \<Rightarrow> Inr ''null''
    | VBool b \<Rightarrow> Inr (if b then ''true'' else ''false'')
    | VNum n \<Rightarrow> if \<bar>n\<bar> < 10 ^ 21 then Inr (string_of_int n) else host_String h v
    | VStr s \<Rightarrow> Inr s
    | VFun f \<Rightarrow> host_String h v
    | VObj ob \<Rightarrow> host_String h v)"

text \<open>The double quote and the apostrophe, for the messages that contain them.\<close>

definition dq :: string where
  "dq = [CHR 0x22]"

definition sq :: string where
  "sq = [CHR 0x27]"

text \<open>
  \<^verbatim>\<open>utils/actionTypes\<close> is not among the sources; its three members are parameters:
  the two private action types, and the type the \<open>n\<close>-th call of
  \<^verbatim>\<open>PROBE_UNKNOWN_ACTION()\<close> returns.
\<close>

record actionTypes =
  INIT :: string
  REPLACE :: string
  PROBE_UNKNOWN_ACTION :: "nat \<Rightarrow> string"

text \<open>
  The action literals \<^verbatim>\<open>{ type: ActionTypes.INIT }\<close> and
  \<^verbatim>\<open>{ type: ActionTypes.PROBE_UNKNOWN_ACTION() }\<close>, allocated with identity \<open>i\<close>.
\<close>

definition init_action :: "host \<Rightarrow> actionTypes \<Rightarrow> nat \<Rightarrow> jsval" where
  "init_action h at i = object_literal h i [(''type'', VStr (INIT at))]"

definition probe_action :: "host \<Rightarrow> actionTypes \<Rightarrow> nat \<Rightarrow> nat \<Rightarrow> jsval" where
  "probe_action h at i n = object_literal h i [(''type'', VStr (PROBE_UNKNOWN_ACTION at n))]"

definition replace_action :: "host \<Rightarrow> actionTypes \<Rightarrow> nat \<Rightarrow> jsval" where
  "replace_action h at i = object_literal h i [(''type'', VStr (REPLACE at))]"

section \<open>createStore (src/unnamed/part_000)\<close>

text \<open>
  A reducer is the function it computes on the state and the action; a raised exception
  is \<open>Inl\<close>.  A listener takes no argument and returns nothing: what matters of it are
  the calls it makes on the store, given here as a list of calls that depends on the
  state the listener can read; the body stops at the first call that raises.
  Listeners that dispatch, and reducers that call the store, have sections of their own
  below.
\<close>

type_synonym reducer = "jsval \<Rightarrow> jsval \<Rightarrow> error + jsval"

datatype call =
    GetState
  | Subscribe jsval
  | Unsubscribe nat
  | Raise error

record callbacks =
  reducer_body :: "nat \<Rightarrow> reducer"
  listener_body :: "nat \<Rightarrow> jsval \<Rightarrow> call list"

text \<open>
  The variables the closures of one store share.  \<open>currentListeners\<close> and
  \<open>nextListeners\<close> are references to arrays: \<open>arrays\<close> maps an address to the array's
  contents (the identities of the listener functions) and \<open>allocated\<close> is the first
  unused address.  \<open>closures\<close> holds, for every \<^verbatim>\<open>unsubscribe\<close> closure made so far, its
  listener and its \<^verbatim>\<open>isSubscribed\<close> flag.  \<open>invoked\<close> is a log of the listener
  invocations, kept for the statements about them; nothing reads it.
\<close>

record store =
  currentReducer :: nat
  currentState :: jsval
  currentListeners :: nat
  nextListeners :: nat
  isDispatching :: bool
  arrays :: "nat \<Rightarrow> nat list"
  allocated :: nat
  closures :: "(nat \<times> bool) list"
  invoked :: "nat list"

text \<open>
  The errors the store raises, under the names the specification gives them, with the
  messages of the source.
\<close>

definition ReentrantReadError :: error where
  "ReentrantReadError =
     Error (''You may not call store.getState() while the reducer is executing. '' @
            ''The reducer has already received the state as an argument. '' @
            ''Pass it down from the top reducer instead of reading it from the store.'')"

definition ReentrantSubscribeError :: error where
  "ReentrantSubscribeError =
     Error (''You may not call store.subscribe() while the reducer is executing. '' @
            ''If you would like to be notified after the store has been updated, subscribe from a '' @
            ''component and invoke store.getState() in the callback to access the latest state. '' @
            ''See https://redux.js.org/api-reference/store#subscribe(listener) for more details.'')"

definition ReentrantUnsubscribeError :: error where
  "ReentrantUnsubscribeError =
     Error (''You may not unsubscribe from a store listener while the reducer is executing. '' @
            ''See https://redux.js.org/api-reference/store#subscribe(listener) for more details.'')"

definition InvalidListenerError :: error where
  "InvalidListenerError = Error ''Expected the listener to be a function.''"

definition InvalidActionError :: error where
  "InvalidActionError =
     Error (''Actions must be plain objects. '' @ ''Use custom middleware for async actions.'')"

definition MissingActionTypeError :: error where
  "MissingActionTypeError =
     Error (''Actions may not have an undefined '' @ dq @ ''type'' @ dq @ '' property. '' @
            ''Have you misspelled a constant?'')"

definition NestedDispatchError :: error where
  "NestedDispatchError = Error ''Reducers may not dispatch actions.''"

definition ensureCanMutateNextListeners :: "store \<Rightarrow> store" where
  "ensureCanMutateNextListeners s =
     (if nextListeners s = currentListeners s
      then s\<lparr>arrays := (arrays s)(allocated s := arrays s (currentListeners s)),
             nextListeners := allocated s,
             allocated := Suc (allocated s)\<rparr>
      else s)"

definition getState :: "store \<Rightarrow> error + jsval" where
  "getState s =
     (if isDispatching s
      then Inl ReentrantReadError
      else Inr (currentState s))"

text \<open>
  \<^verbatim>\<open>subscribe\<close> returns the new \<^verbatim>\<open>unsubscribe\<close> closure: its index in \<open>closures\<close>.
  The first branch is \<^verbatim>\<open>typeof listener === 'function'\<close>.
\<close>

definition subscribe :: "jsval \<Rightarrow> store \<Rightarrow> (error + nat) \<times> store" where
  "subscribe listener s =
     (case listener of
        VFun l \<Rightarrow>
          if isDispatching s
          then (Inl ReentrantSubscribeError, s)
          else
            (let s1 = ensureCanMutateNextListeners s;
                 s2 = s1\<lparr>arrays := (arrays s1)(nextListeners s1 := arrays s1 (nextListeners s1) @ [l])\<rparr>
             in (Inr (length (closures s2)), s2\<lparr>closures := closures s2 @ [(l, True)]\<rparr>))
      | _ \<Rightarrow> (Inl InvalidListenerError, s))"

text \<open>\<^verbatim>\<open>xs.indexOf(x)\<close>: the first index of \<open>x\<close>, or \<open>-1\<close>.\<close>

fun indexOf :: "'a list \<Rightarrow> 'a \<Rightarrow> int" where
  "indexOf [] x = - 1"
| "indexOf (y # ys) x =
     (if y = x then 0 else (let i = indexOf ys x in if i < 0 then - 1 else i + 1))"

text \<open>
  \<^verbatim>\<open>xs.splice(start, 1)\<close>, the array it leaves: a negative \<open>start\<close> counts from the end,
  so \<^verbatim>\<open>splice(-1, 1)\<close> removes the last element.
\<close>

definition splice1 :: "'a list \<Rightarrow> int \<Rightarrow> 'a list" where
  "splice1 xs start =
     (let len = int (length xs);
          actualStart = (if start < 0 then max (len + start) 0 else min start len)
      in take (nat actualStart) xs @ drop (Suc (nat actualStart)) xs)"

text \<open>
  A call of the \<^verbatim>\<open>unsubscribe\<close> closure \<open>k\<close>.  An index that names no closure names
  nothing to call: the store is left as it is.
\<close>

definition unsubscribe :: "nat \<Rightarrow> store \<Rightarrow> error option \<times> store" where
  "unsubscribe k s =
     (if length (closures s) \<le> k then (None, s)
      else
        (let listener = fst (closures s ! k); isSubscribed = snd (closures s ! k)
         in if \<not> isSubscribed then (None, s)
            else if isDispatching s
            then (Some ReentrantUnsubscribeError, s)
            else
              (let s1 = s\<lparr>closures := (closures s)[k := (listener, False)]\<rparr>;
                   s2 = ensureCanMutateNextListeners s1;
                   index = indexOf (arrays s2 (nextListeners s2)) listener
               in (None, s2\<lparr>arrays := (arrays s2)(nextListeners s2 :=
                                 splice1 (arrays s2 (nextListeners s2)) index)\<rparr>))))"

subsection \<open>What a listener does\<close>

definition run_call :: "call \<Rightarrow> store \<Rightarrow> error option \<times> store" where
  "run_call c s = (case c of
      GetState \<Rightarrow> (case getState s of Inl e \<Rightarrow> (Some e, s) | Inr v \<Rightarrow> (None, s))
    | Subscribe listener \<Rightarrow>
        (case subscribe listener s of (Inl e, s') \<Rightarrow> (Some e, s') | (Inr u, s') \<Rightarrow> (None, s'))
    | Unsubscribe k \<Rightarrow> unsubscribe k s
    | Raise e \<Rightarrow> (Some e, s))"

fun run_body :: "call list \<Rightarrow> store \<Rightarrow> error option \<times> store" where
  "run_body [] s = (None, s)"
| "run_body (c # cs) s =
     (case run_call c s of (Some e, s') \<Rightarrow> (Some e, s') | (None, s') \<Rightarrow> run_body cs s')"

text \<open>\<^verbatim>\<open>listener()\<close>: the invocation is logged, then the body runs.\<close>

definition call_listener :: "callbacks \<Rightarrow> nat \<Rightarrow> store \<Rightarrow> error option \<times> store" where
  "call_listener cb l s =
     run_body (listener_body cb l (currentState s)) (s\<lparr>invoked := invoked s @ [l]\<rparr>)"

subsection \<open>dispatch\<close>

text \<open>
  The loop \<^verbatim>\<open>for (let i = 0; i < listeners.length; i++) listeners[i]()\<close> over the array at
  address \<open>listeners\<close>.  It reads the array again at every step, as the source does, so
  it ends only if the listeners leave that array alone: not returning is \<open>None\<close>.
\<close>

partial_function (option) dispatch_loop ::
  "callbacks \<Rightarrow> nat \<Rightarrow> nat \<Rightarrow> store \<Rightarrow> (error option \<times> store) option" where
  "dispatch_loop cb listeners i s =
     (if i < length (arrays s listeners)
      then (case call_listener cb (arrays s listeners ! i) s of
              (Some e, s') \<Rightarrow> Some (Some e, s')
            | (None, s') \<Rightarrow> dispatch_loop cb listeners (Suc i) s')
      else Some (None, s))"

declare dispatch_loop.simps [code]

definition dispatch ::
  "host \<Rightarrow> callbacks \<Rightarrow> jsval \<Rightarrow> store \<Rightarrow> ((error + jsval) \<times> store) option" where
  "dispatch h cb action s =
     (if \<not> isPlainObject action
      then Some (Inl InvalidActionError, s)
      else (case member h action ''type'' of
          Inl e \<Rightarrow> Some (Inl e, s)
        | Inr t \<Rightarrow>
            if typeof t = ''undefined''
            then Some (Inl MissingActionTypeError, s)
            else if isDispatching s
            then Some (Inl NestedDispatchError, s)
            else
              (let s1 = s\<lparr>isDispatching := True\<rparr>
               in (case reducer_body cb (currentReducer s1) (currentState s1) action of
                     Inl e \<Rightarrow> Some (Inl e, s1\<lparr>isDispatching := False\<rparr>)
                   | Inr v \<Rightarrow>
                       (let s2 = s1\<lparr>currentState := v, isDispatching := False\<rparr>;
                            s3 = s2\<lparr>currentListeners := nextListeners s2\<rparr>
                        in (case dispatch_loop cb (currentListeners s3) 0 s3 of
                              None \<Rightarrow> None
                            | Some (Some e, s') \<Rightarrow> Some (Inl e, s')
                            | Some (None, s') \<Rightarrow> Some (Inr action, s')))))))"

text \<open>\<^verbatim>\<open>replaceReducer\<close>; the \<^verbatim>\<open>REPLACE\<close> action literal is allocated with identity \<open>fresh\<close>.\<close>

definition replaceReducer ::
  "host \<Rightarrow> actionTypes \<Rightarrow> callbacks \<Rightarrow> nat \<Rightarrow> jsval \<Rightarrow> store \<Rightarrow> ((error + jsval) \<times> store) option" where
  "replaceReducer h at cb fresh nextReducer s =
     (case nextReducer of
        VFun r \<Rightarrow>
          (case dispatch h cb (replace_action h at fresh)
                  (s\<lparr>currentReducer := r\<rparr>) of
             None \<Rightarrow> None
           | Some (Inl e, s') \<Rightarrow> Some (Inl e, s')
           | Some (Inr a, s') \<Rightarrow> Some (Inr VUndefined, s'))
      | _ \<Rightarrow> Some (Inl (Error ''Expected the nextReducer to be a function.''), s))"

text \<open>
  \<^verbatim>\<open>createStore(reducer, preloadedState, enhancer)\<close>.  With an enhancer the result is
  whatever \<^verbatim>\<open>enhancer(createStore)(reducer, preloadedState)\<close> returns, which is the
  enhancer's business: the model returns that call.  Otherwise the result is the store,
  given by the variables its methods share.  The reactive-stream adapter is not
  modelled.
\<close>

datatype created =
    Store store
  | Enhanced jsval jsval jsval

definition createStore ::
  "host \<Rightarrow> actionTypes \<Rightarrow> callbacks \<Rightarrow> nat \<Rightarrow> jsval \<Rightarrow> jsval \<Rightarrow> jsval \<Rightarrow> (error + created) option" where
  "createStore h at cb fresh reducer preloadedState0 enhancer0 =
     (let swap = (typeof preloadedState0 = ''function'' \<and> typeof enhancer0 = ''undefined'');
          enhancer = (if swap then preloadedState0 else enhancer0);
          preloadedState = (if swap then VUndefined else preloadedState0)
      in if typeof enhancer \<noteq> ''undefined''
         then (if typeof enhancer \<noteq> ''function''
               then Some (Inl (Error ''Expected the enhancer to be a function.''))
               else Some (Inr (Enhanced enhancer reducer preloadedState)))
         else (case reducer of
             VFun r \<Rightarrow>
               (let s0 = \<lparr>currentReducer = r, currentState = preloadedState,
                          currentListeners = 0, nextListeners = 0, isDispatching = False,
                          arrays = (\<lambda>a. []), allocated = 1, closures = [], invoked = []\<rparr>
                in (case dispatch h cb (init_action h at fresh) s0 of
                      None \<Rightarrow> None
                    | Some (Inl e, s) \<Rightarrow> Some (Inl e)
                    | Some (Inr a, s) \<Rightarrow> Some (Inr (Store s))))
           | _ \<Rightarrow> Some (Inl (Error ''Expected the reducer to be a function.''))))"

subsection \<open>The listener list as the specification describes it\<close>

text \<open>
  The list of pending listeners is the array \<open>nextListeners\<close> refers to.
\<close>

definition pending :: "store \<Rightarrow> nat list" where
  "pending s = arrays s (nextListeners s)"

text \<open>Both array references are allocated addresses.\<close>

definition store_ok :: "store \<Rightarrow> bool" where
  "store_ok s = (currentListeners s < allocated s \<and> nextListeners s < allocated s)"

text \<open>
  The specification's reading of a notification round: one list of pending listeners
  that subscribe and unsubscribe change directly, and a snapshot of it that is walked.
  These functions follow the specification, not the source: they know of no second
  array and of no copy.  A state is the pending list and the \<^verbatim>\<open>unsubscribe\<close> closures.
\<close>

type_synonym subscriptions = "nat list \<times> (nat \<times> bool) list"

definition spec_call :: "call \<Rightarrow> subscriptions \<Rightarrow> error option \<times> subscriptions" where
  "spec_call c ps = (case c of
      GetState \<Rightarrow> (None, ps)
    | Subscribe listener \<Rightarrow>
        (case listener of
           VFun l \<Rightarrow> (None, (fst ps @ [l], snd ps @ [(l, True)]))
         | _ \<Rightarrow> (Some InvalidListenerError, ps))
    | Unsubscribe k \<Rightarrow>
        (if k < length (snd ps) \<and> snd (snd ps ! k)
         then (None, (splice1 (fst ps) (indexOf (fst ps) (fst (snd ps ! k))),
                      (snd ps)[k := (fst (snd ps ! k), False)]))
         else (None, ps))
    | Raise e \<Rightarrow> (Some e, ps))"

fun spec_body :: "call list \<Rightarrow> subscriptions \<Rightarrow> error option \<times> subscriptions" where
  "spec_body [] ps = (None, ps)"
| "spec_body (c # cs) ps =
     (case spec_call c ps of (Some e, ps') \<Rightarrow> (Some e, ps') | (None, ps') \<Rightarrow> spec_body cs ps')"

text \<open>
  Walking a snapshot: the listeners invoked so far are returned with the outcome.
\<close>

fun spec_notify ::
  "callbacks \<Rightarrow> jsval \<Rightarrow> nat list \<Rightarrow> nat list \<Rightarrow> subscriptions \<Rightarrow>
     error option \<times> nat list \<times> subscriptions" where
  "spec_notify cb v [] seen ps = (None, seen, ps)"
| "spec_notify cb v (l # ls) seen ps =
     (case spec_body (listener_body cb l v) ps of
        (Some e, ps') \<Rightarrow> (Some e, seen @ [l], ps')
      | (None, ps') \<Rightarrow> spec_notify cb v ls (seen @ [l]) ps')"

text \<open>
  What a call made from inside a listener leaves as it was: everything but the pending
  list and the closures; in particular the array the running dispatch walks.
\<close>

definition frame :: "store \<Rightarrow> store \<Rightarrow> bool" where
  "frame s s' = (store_ok s' \<and> isDispatching s' = isDispatching s \<and> currentState s' = currentState s \<and>
     currentReducer s' = currentReducer s \<and> currentListeners s' = currentListeners s \<and>
     invoked s' = invoked s \<and> arrays s' (currentListeners s) = arrays s (currentListeners s))"

text \<open>A listener body that raises nothing of its own: it subscribes functions only.\<close>

definition quiet :: "call list \<Rightarrow> bool" where
  "quiet cs = list_all (\<lambda>c. case c of
      GetState \<Rightarrow> True
    | Subscribe listener \<Rightarrow> typeof listener = ''function''
    | Unsubscribe k \<Rightarrow> True
    | Raise e \<Rightarrow> False) cs"

text \<open>
  The listeners subscribed and not unsubscribed, in the order of their subscription:
  those of the closures whose \<^verbatim>\<open>isSubscribed\<close> flag is set.
\<close>

definition subscribed :: "(nat \<times> bool) list \<Rightarrow> nat list" where
  "subscribed cl = map fst (filter snd cl)"

subsection \<open>Registration order\<close>

text \<open>
  A notification round in which no listener subscribes a function that is subscribed at
  that moment: in such a round no function gets into the pending list twice.
\<close>

fun subscribes_new_body :: "call list \<Rightarrow> subscriptions \<Rightarrow> bool" where
  "subscribes_new_body [] ps = True"
| "subscribes_new_body (c # cs) ps =
     ((case c of Subscribe (VFun l) \<Rightarrow> l \<notin> set (fst ps) | _ \<Rightarrow> True) \<and>
      (case spec_call c ps of
         (Some e, ps') \<Rightarrow> True
       | (None, ps') \<Rightarrow> subscribes_new_body cs ps'))"

fun subscribes_new :: "callbacks \<Rightarrow> jsval \<Rightarrow> nat list \<Rightarrow> subscriptions \<Rightarrow> bool" where
  "subscribes_new cb v [] ps = True"
| "subscribes_new cb v (l # ls) ps =
     (subscribes_new_body (listener_body cb l v) ps \<and>
      (case spec_body (listener_body cb l v) ps of
         (Some e, ps') \<Rightarrow> True
       | (None, ps') \<Rightarrow> subscribes_new cb v ls ps'))"

subsection \<open>A reducer that calls the store\<close>

text \<open>
  The methods of a store are closures over its variables, and a reducer may call them
  while it runs.  Such a reducer is given by a program: it returns or raises (\<open>Done\<close>), or
  it makes a call on the store and goes on as the reply tells it to, which is how it
  may catch what the call raises.  The reply to \<^verbatim>\<open>subscribe\<close> is the new \<^verbatim>\<open>unsubscribe\<close>
  closure.  A reducer that calls \<^verbatim>\<open>dispatch\<close> or \<^verbatim>\<open>replaceReducer\<close> is outside the model.
\<close>

datatype reply =
    Raised error
  | Got jsval
  | Unsubscriber nat
  | Returned

datatype program =
    Done "error + jsval"
  | Call call "reply \<Rightarrow> program"

definition store_reply :: "call \<Rightarrow> store \<Rightarrow> reply \<times> store" where
  "store_reply c s = (case c of
      GetState \<Rightarrow> (case getState s of Inl e \<Rightarrow> (Raised e, s) | Inr v \<Rightarrow> (Got v, s))
    | Subscribe listener \<Rightarrow>
        (case subscribe listener s of
           (Inl e, s') \<Rightarrow> (Raised e, s')
         | (Inr u, s') \<Rightarrow> (Unsubscriber u, s'))
    | Unsubscribe k \<Rightarrow>
        (case unsubscribe k s of
           (Some e, s') \<Rightarrow> (Raised e, s')
         | (None, s') \<Rightarrow> (Returned, s'))
    | Raise e \<Rightarrow> (Raised e, s))"

primrec run_program :: "program \<Rightarrow> store \<Rightarrow> (error + jsval) \<times> store" where
  "run_program (Done r) s = (r, s)"
| "run_program (Call c k) s = (case store_reply c s of (a, s') \<Rightarrow> run_program (k a) s')"

text \<open>
  \<^verbatim>\<open>dispatch\<close> again, for reducers that call the store: \<open>reducer_program f state action\<close>
  is the program of the call \<^verbatim>\<open>f(state, action)\<close>, run on the store as \<^verbatim>\<open>dispatch\<close> has
  left it at that point.  The listeners are those of \<open>cb\<close>.
\<close>

definition dispatch_reentrant ::
  "host \<Rightarrow> (nat \<Rightarrow> jsval \<Rightarrow> jsval \<Rightarrow> program) \<Rightarrow> callbacks \<Rightarrow> jsval \<Rightarrow> store \<Rightarrow>
     ((error + jsval) \<times> store) option" where
  "dispatch_reentrant h reducer_program cb action s =
     (if \<not> isPlainObject action
      then Some (Inl InvalidActionError, s)
      else (case member h action ''type'' of
          Inl e \<Rightarrow> Some (Inl e, s)
        | Inr t \<Rightarrow>
            if typeof t = ''undefined''
            then Some (Inl MissingActionTypeError, s)
            else if isDispatching s
            then Some (Inl NestedDispatchError, s)
            else
              (let s1 = s\<lparr>isDispatching := True\<rparr>
               in (case run_program (reducer_program (currentReducer s1) (currentState s1) action) s1 of
                     (Inl e, s1') \<Rightarrow> Some (Inl e, s1'\<lparr>isDispatching := False\<rparr>)
                   | (Inr v, s1') \<Rightarrow>
                       (let s2 = s1'\<lparr>currentState := v, isDispatching := False\<rparr>;
                            s3 = s2\<lparr>currentListeners := nextListeners s2\<rparr>
                        in (case dispatch_loop cb (currentListeners s3) 0 s3 of
                              None \<Rightarrow> None
                            | Some (Some e, s') \<Rightarrow> Some (Inl e, s')
                            | Some (None, s') \<Rightarrow> Some (Inr action, s')))))))"

subsection \<open>A listener that dispatches\<close>

text \<open>
  A listener may call \<^verbatim>\<open>dispatch\<close>, as the source says where it documents \<^verbatim>\<open>subscribe\<close>, and
  then \<^verbatim>\<open>dispatch\<close> runs inside the loop of \<^verbatim>\<open>dispatch\<close>.  Such a listener is a list of
  steps: a call as before, or the dispatch of an action; an error ends it.  The three
  functions are \<^verbatim>\<open>dispatch\<close>, its loop and the body of a listener once more, for such
  listeners: \<open>steps l v\<close> is what listener \<open>l\<close> does when it finds the state \<open>v\<close>.  The first
  argument bounds the depth of the calls, and \<open>None\<close> is also the answer when the bound
  is too small.
\<close>

datatype step =
    Plain call
  | Dispatch jsval

fun dispatch_nested ::
    "nat \<Rightarrow> host \<Rightarrow> callbacks \<Rightarrow> (nat \<Rightarrow> jsval \<Rightarrow> step list) \<Rightarrow> jsval \<Rightarrow> store \<Rightarrow>
       ((error + jsval) \<times> store) option"
  and loop_nested ::
    "nat \<Rightarrow> host \<Rightarrow> callbacks \<Rightarrow> (nat \<Rightarrow> jsval \<Rightarrow> step list) \<Rightarrow> nat \<Rightarrow> nat \<Rightarrow> store \<Rightarrow>
       (error option \<times> store) option"
  and steps_nested ::
    "nat \<Rightarrow> host \<Rightarrow> callbacks \<Rightarrow> (nat \<Rightarrow> jsval \<Rightarrow> step list) \<Rightarrow> step list \<Rightarrow> store \<Rightarrow>
       (error option \<times> store) option"
where
  "dispatch_nested 0 h cb steps action s = None"
| "dispatch_nested (Suc n) h cb steps action s =
     (if \<not> isPlainObject action
      then Some (Inl InvalidActionError, s)
      else (case member h action ''type'' of
          Inl e \<Rightarrow> Some (Inl e, s)
        | Inr t \<Rightarrow>
            if typeof t = ''undefined''
            then Some (Inl MissingActionTypeError, s)
            else if isDispatching s
            then Some (Inl NestedDispatchError, s)
            else
              (let s1 = s\<lparr>isDispatching := True\<rparr>
               in (case reducer_body cb (currentReducer s1) (currentState s1) action of
                     Inl e \<Rightarrow> Some (Inl e, s1\<lparr>isDispatching := False\<rparr>)
                   | Inr v \<Rightarrow>
                       (let s2 = s1\<lparr>currentState := v, isDispatching := False\<rparr>;
                            s3 = s2\<lparr>currentListeners := nextListeners s2\<rparr>
                        in (case loop_nested n h cb steps (currentListeners s3) 0 s3 of
                              None \<Rightarrow> None
                            | Some (Some e, s') \<Rightarrow> Some (Inl e, s')
                            | Some (None, s') \<Rightarrow> Some (Inr action, s')))))))"
| "loop_nested 0 h cb steps listeners i s = None"
| "loop_nested (Suc n) h cb steps listeners i s =
     (if i < length (arrays s listeners)
      then (case steps_nested n h cb steps
                   (steps (arrays s listeners ! i) (currentState s))
                   (s\<lparr>invoked := invoked s @ [arrays s listeners ! i]\<rparr>) of
              None \<Rightarrow> None
            | Some (Some e, s') \<Rightarrow> Some (Some e, s')
            | Some (None, s') \<Rightarrow> loop_nested n h cb steps listeners (Suc i) s')
      else Some (None, s))"
| "steps_nested 0 h cb steps cs s = None"
| "steps_nested (Suc n) h cb steps [] s = Some (None, s)"
| "steps_nested (Suc n) h cb steps (Plain c # cs) s =
     (case run_call c s of
        (Some e, s') \<Rightarrow> Some (Some e, s')
      | (None, s') \<Rightarrow> steps_nested n h cb steps cs s')"
| "steps_nested (Suc n) h cb steps (Dispatch action # cs) s =
     (case dispatch_nested n h cb steps action s of
        None \<Rightarrow> None
      | Some (Inl e, s') \<Rightarrow> Some (Some e, s')
      | Some (Inr a, s') \<Rightarrow> steps_nested n h cb steps cs s')"
section \<open>combineReducers (src/src/combineReducers.js)\<close>

text \<open>
  Modelled from the spec: \<^verbatim>\<open>utils/warning\<close> is not among the sources.  The specification
  has the warnings as advisory text output that never affects control flow or return
  values: \<open>warning\<close> adds its message to the messages printed so far.
\<close>

definition warning :: "string \<Rightarrow> string list \<Rightarrow> string list" where
  "warning message printed = printed @ [message]"

text \<open>\<^verbatim>\<open>xs.join(separator)\<close> on an array of strings.\<close>

fun join :: "string list \<Rightarrow> string \<Rightarrow> string" where
  "join [] separator = []"
| "join [x] separator = x"
| "join (x # y # ys) separator = x @ separator @ join (y # ys) separator"

definition getUndefinedStateErrorMessage :: "host \<Rightarrow> string \<Rightarrow> jsval \<Rightarrow> error + string" where
  "getUndefinedStateErrorMessage h key action =
     (case (if truthy action then member h action ''type'' else Inr action) of
        Inl e \<Rightarrow> Inl e
      | Inr actionType \<Rightarrow>
          (case (if truthy actionType
                 then (case js_String h actionType of
                         Inl e \<Rightarrow> Inl e
                       | Inr s \<Rightarrow> Inr (''action '' @ dq @ s @ dq))
                 else Inr ''an action'') of
             Inl e \<Rightarrow> Inl e
           | Inr actionDescription \<Rightarrow>
               Inr (''Given '' @ actionDescription @ '', reducer '' @ dq @ key @ dq @
                    '' returned undefined. '' @
                    ''To ignore an action, you must explicitly return the previous state. '' @
                    ''If you want this reducer to hold no value, you can return null instead of undefined.'')))"

text \<open>\<^verbatim>\<open>action && action.type === t\<close>, read as a boolean.\<close>

definition action_has_type :: "host \<Rightarrow> jsval \<Rightarrow> string \<Rightarrow> error + bool" where
  "action_has_type h action t =
     (if truthy action
      then (case member h action ''type'' of
              Inl e \<Rightarrow> Inl e
            | Inr actionType \<Rightarrow> Inr (strict_eq actionType (VStr t)))
      else Inr False)"

text \<open>
  \<^verbatim>\<open>{}.toString.call(v).match(/\s([a-z|A-Z]+)/)[1]\<close>: the class name in
  \<^verbatim>\<open>[object Class]\<close>.
\<close>

definition toString_class :: "host \<Rightarrow> jsval \<Rightarrow> string" where
  "toString_class h v = (case v of
      VUndefined \<Rightarrow> ''Undefined''
    | VNull \<Rightarrow> ''Null''
    | VBool b \<Rightarrow> ''Boolean''
    | VNum n \<Rightarrow> ''Number''
    | VStr s \<Rightarrow> ''String''
    | VFun f \<Rightarrow> class_name h v
    | VObj ob \<Rightarrow> class_name h v)"

text \<open>
  \<^verbatim>\<open>reducers.hasOwnProperty(key)\<close> on \<open>finalReducers\<close>, read as a boolean.  The method is
  looked up like any property: when a reducer is registered under the key
  \<^verbatim>\<open>hasOwnProperty\<close>, the call runs that reducer, with the key as its state and no action;
  otherwise it runs the method of \<^verbatim>\<open>Object.prototype\<close>.
\<close>

definition hasOwnProperty :: "(nat \<Rightarrow> reducer) \<Rightarrow> (string \<times> nat) list \<Rightarrow> string \<Rightarrow> error + bool" where
  "hasOwnProperty renv reducers key =
     (case map_of reducers ''hasOwnProperty'' of
        Some reducer \<Rightarrow>
          (case renv reducer (VStr key) VUndefined of
             Inl e \<Rightarrow> Inl e
           | Inr v \<Rightarrow> Inr (truthy v))
      | None \<Rightarrow> Inr (key \<in> set (map fst reducers)))"

text \<open>
  \<^verbatim>\<open>unexpectedKeyCache[key]\<close>, read as a boolean.  The cache is an object made with
  \<^verbatim>\<open>{}\<close>: a key it does not have is looked up in \<^verbatim>\<open>Object.prototype\<close>, whose accessor
  \<^verbatim>\<open>__proto__\<close> gives that prototype, an object.
\<close>

definition cached :: "host \<Rightarrow> (string \<times> jsval) list \<Rightarrow> string \<Rightarrow> bool" where
  "cached h unexpectedKeyCache key =
     (case map_of unexpectedKeyCache key of
        Some v \<Rightarrow> truthy v
      | None \<Rightarrow> key = ''__proto__'' \<or> truthy (obj_get (Object_prototype h) key))"

text \<open>
  \<^verbatim>\<open>keys.filter(key => !reducers.hasOwnProperty(key) && !unexpectedKeyCache[key])\<close>; an
  exception of the callback ends it.
\<close>

fun unexpectedKeys_filter ::
  "host \<Rightarrow> (nat \<Rightarrow> reducer) \<Rightarrow> (string \<times> nat) list \<Rightarrow> (string \<times> jsval) list \<Rightarrow> string list \<Rightarrow>
     error + string list" where
  "unexpectedKeys_filter h renv reducers unexpectedKeyCache [] = Inr []"
| "unexpectedKeys_filter h renv reducers unexpectedKeyCache (key # keys) =
     (case hasOwnProperty renv reducers key of
        Inl e \<Rightarrow> Inl e
      | Inr own \<Rightarrow>
          (case unexpectedKeys_filter h renv reducers unexpectedKeyCache keys of
             Inl e \<Rightarrow> Inl e
           | Inr unexpectedKeys \<Rightarrow>
               Inr (if \<not> own \<and> \<not> cached h unexpectedKeyCache key
                    then key # unexpectedKeys else unexpectedKeys)))"

text \<open>
  \<^verbatim>\<open>getUnexpectedStateShapeWarningMessage\<close>: the message (\<open>None\<close> for \<^verbatim>\<open>undefined\<close>) or the
  exception that ends the call, and the properties of the cache object afterwards.
\<close>

definition getUnexpectedStateShapeWarningMessage ::
  "host \<Rightarrow> actionTypes \<Rightarrow> (nat \<Rightarrow> reducer) \<Rightarrow> jsval \<Rightarrow> (string \<times> nat) list \<Rightarrow> jsval \<Rightarrow>
     (string \<times> jsval) list \<Rightarrow> (error + string option) \<times> (string \<times> jsval) list" where
  "getUnexpectedStateShapeWarningMessage h at renv inputState reducers action unexpectedKeyCache =
     (let reducerKeys = map fst reducers
      in (case action_has_type h action (INIT at) of
            Inl e \<Rightarrow> (Inl e, unexpectedKeyCache)
          | Inr init \<Rightarrow>
              (let argumentName =
                     (if init then ''preloadedState argument passed to createStore''
                      else ''previous state received by the reducer'')
               in if length reducerKeys = 0
                  then (Inr (Some (''Store does not have a valid reducer. Make sure the argument passed '' @
                                   ''to combineReducers is an object whose values are reducers.'')),
                        unexpectedKeyCache)
                  else if \<not> isPlainObject inputState
                  then (Inr (Some (''The '' @ argumentName @ '' has unexpected type of '' @ dq @
                                   toString_class h inputState @
                                   dq @ ''. Expected argument to be an object with the following '' @
                                   ''keys: '' @ dq @ join reducerKeys (dq @ '', '' @ dq) @ dq)),
                        unexpectedKeyCache)
                  else (case Object_keys h inputState of
                      Inl e \<Rightarrow> (Inl e, unexpectedKeyCache)
                    | Inr keys \<Rightarrow>
                        (case unexpectedKeys_filter h renv reducers unexpectedKeyCache keys of
                           Inl e \<Rightarrow> (Inl e, unexpectedKeyCache)
                         | Inr unexpectedKeys \<Rightarrow>
                             (let cache = fold (\<lambda>key cache. assign cache key (VBool True))
                                            unexpectedKeys unexpectedKeyCache
                              in (case action_has_type h action (REPLACE at) of
                                    Inl e \<Rightarrow> (Inl e, cache)
                                  | Inr replace \<Rightarrow>
                                      if replace then (Inr None, cache)
                                      else if length unexpectedKeys > 0
                                      then (Inr (Some (''Unexpected '' @
                                              (if length unexpectedKeys > 1 then ''keys'' else ''key'') @
                                              '' '' @ dq @ join unexpectedKeys (dq @ '', '' @ dq) @ dq @
                                              '' found in '' @ argumentName @ ''. '' @
                                              ''Expected to find one of the known reducer keys instead: '' @
                                              dq @ join reducerKeys (dq @ '', '' @ dq) @ dq @
                                              ''. Unexpected keys will be ignored.'')),
                                            cache)
                                      else (Inr None, cache))))))))"

definition UninitializedReducerError :: "string \<Rightarrow> error" where
  "UninitializedReducerError key =
     Error (''Reducer '' @ dq @ key @ dq @ '' returned undefined during initialization. '' @
            ''If the state passed to the reducer is undefined, you must '' @
            ''explicitly return the initial state. The initial state may '' @
            ''not be undefined. If you don'' @ sq @ ''t want to set a value for this reducer, '' @
            ''you can use null instead of undefined.'')"

definition UnknownActionHandlingError :: "actionTypes \<Rightarrow> string \<Rightarrow> error" where
  "UnknownActionHandlingError at key =
     Error (''Reducer '' @ dq @ key @ dq @ '' returned undefined when probed with a random type. '' @
            ''Don'' @ sq @ ''t try to handle '' @ INIT at @ '' or other actions in '' @
            dq @ ''redux/*'' @ dq @ '' '' @
            ''namespace. They are considered private. Instead, you must return the '' @
            ''current state for any unknown actions, unless it is undefined, '' @
            ''in which case you must return the initial state, regardless of the '' @
            ''action type. The initial state may not be undefined, but can be null.'')"

text \<open>
  \<^verbatim>\<open>Object.keys(reducers).forEach(key => ...)\<close> of \<^verbatim>\<open>assertReducerShape\<close>, over the keys
  left; the result is the exception that ends it, if any.  \<open>fresh\<close> is the first unused
  identity and \<open>n\<close> counts the calls of \<^verbatim>\<open>PROBE_UNKNOWN_ACTION\<close>.
\<close>

fun assertReducerShape_forEach ::
  "host \<Rightarrow> actionTypes \<Rightarrow> (nat \<Rightarrow> reducer) \<Rightarrow> (string \<times> nat) list \<Rightarrow> nat \<Rightarrow> nat \<Rightarrow>
     string list \<Rightarrow> error option" where
  "assertReducerShape_forEach h at renv reducers fresh n [] = None"
| "assertReducerShape_forEach h at renv reducers fresh n (key # keys) =
     (case map_of reducers key of
        None \<Rightarrow> Some (TypeError ''reducer is not a function'')
      | Some reducer \<Rightarrow>
          (case renv reducer VUndefined (init_action h at fresh) of
             Inl e \<Rightarrow> Some e
           | Inr initialState \<Rightarrow>
               if typeof initialState = ''undefined''
               then Some (UninitializedReducerError key)
               else (case renv reducer VUndefined (probe_action h at (Suc fresh) n) of
                       Inl e \<Rightarrow> Some e
                     | Inr probed \<Rightarrow>
                         if typeof probed = ''undefined''
                         then Some (UnknownActionHandlingError at key)
                         else assertReducerShape_forEach h at renv reducers
                                (Suc (Suc fresh)) (Suc n) keys)))"

definition assertReducerShape ::
  "host \<Rightarrow> actionTypes \<Rightarrow> (nat \<Rightarrow> reducer) \<Rightarrow> nat \<Rightarrow> (string \<times> nat) list \<Rightarrow> error option" where
  "assertReducerShape h at renv fresh reducers =
     assertReducerShape_forEach h at renv reducers fresh 0 (map fst reducers)"

text \<open>
  The first loop of \<^verbatim>\<open>combineReducers\<close>, with \<open>finalReducers\<close> and the warnings printed so
  far: \<open>finalReducers\<close> gets the entries whose value is a function (its identity is
  kept).  A function under the key \<^verbatim>\<open>__proto__\<close> becomes the prototype of
  \<open>finalReducers\<close> and no entry of it; the functions of the model have no properties, so
  that \<open>finalReducers\<close> inherits the same properties as before.
\<close>

fun combineReducers_loop ::
  "host \<Rightarrow> jsval \<Rightarrow> string list \<Rightarrow> (string \<times> nat) list \<times> string list \<Rightarrow>
     error + (string \<times> nat) list \<times> string list" where
  "combineReducers_loop h reducers [] (finalReducers, printed) = Inr (finalReducers, printed)"
| "combineReducers_loop h reducers (key # keys) (finalReducers, printed) =
     (case member h reducers key of
        Inl e \<Rightarrow> Inl e
      | Inr reducer \<Rightarrow>
          (let printed1 =
                 (if \<not> strict_eq (NODE_ENV h) (VStr ''production'') \<and> typeof reducer = ''undefined''
                  then warning (''No reducer provided for key '' @ dq @ key @ dq) printed
                  else printed)
           in (case reducer of
                 VFun f \<Rightarrow> combineReducers_loop h reducers keys (assign finalReducers key f, printed1)
               | _ \<Rightarrow> combineReducers_loop h reducers keys (finalReducers, printed1))))"

text \<open>
  The variables the returned closure \<^verbatim>\<open>combination\<close> captures; \<open>unexpectedKeyCache\<close>
  refers to an object the closure writes to, given by its properties (in the production
  build the variable stays \<^verbatim>\<open>undefined\<close> and nothing reads it).  \<open>printed\<close> is the list of
  the warnings printed so far.
\<close>

record combined =
  finalReducers :: "(string \<times> nat) list"
  finalReducerKeys :: "string list"
  unexpectedKeyCache :: "(string \<times> jsval) list"
  shapeAssertionError :: "error option"
  printed :: "string list"

definition combineReducers ::
  "host \<Rightarrow> actionTypes \<Rightarrow> (nat \<Rightarrow> reducer) \<Rightarrow> nat \<Rightarrow> jsval \<Rightarrow> error + combined" where
  "combineReducers h at renv fresh reducers =
     (case Object_keys h reducers of
        Inl e \<Rightarrow> Inl e
      | Inr reducerKeys \<Rightarrow>
          (case combineReducers_loop h reducers reducerKeys ([], []) of
             Inl e \<Rightarrow> Inl e
           | Inr (fr, warnings) \<Rightarrow>
               Inr \<lparr>finalReducers = fr,
                    finalReducerKeys = map fst fr,
                    unexpectedKeyCache = [],
                    shapeAssertionError = assertReducerShape h at renv fresh fr,
                    printed = warnings\<rparr>))"

text \<open>
  The block of \<^verbatim>\<open>combination\<close> under \<^verbatim>\<open>process.env.NODE_ENV !== 'production'\<close>: the
  exception that ends it, if any, and the variables of the closure afterwards.
\<close>

definition combination_warn ::
  "host \<Rightarrow> actionTypes \<Rightarrow> (nat \<Rightarrow> reducer) \<Rightarrow> combined \<Rightarrow> jsval \<Rightarrow> jsval \<Rightarrow> error option \<times> combined" where
  "combination_warn h at renv c state action =
     (if \<not> strict_eq (NODE_ENV h) (VStr ''production'')
      then (case getUnexpectedStateShapeWarningMessage h at renv state (finalReducers c) action
                   (unexpectedKeyCache c) of
              (Inl e, cache) \<Rightarrow> (Some e, c\<lparr>unexpectedKeyCache := cache\<rparr>)
            | (Inr warningMessage, cache) \<Rightarrow>
                (None, c\<lparr>unexpectedKeyCache := cache,
                         printed := (case warningMessage of
                                       None \<Rightarrow> printed c
                                     | Some message \<Rightarrow>
                                         if truthy (VStr message) then warning message (printed c)
                                         else printed c)\<rparr>))
      else (None, c))"

text \<open>
  The loop of \<^verbatim>\<open>combination\<close> over the keys left, with \<^verbatim>\<open>hasChanged\<close> and the properties
  of \<^verbatim>\<open>nextState\<close> so far.  The keys are own keys of \<open>finalReducers\<close>, none of them
  \<^verbatim>\<open>__proto__\<close>: \<^verbatim>\<open>nextState\<close> keeps the prototype it was made with.
\<close>

fun combination_loop ::
  "host \<Rightarrow> (nat \<Rightarrow> reducer) \<Rightarrow> (string \<times> nat) list \<Rightarrow> jsval \<Rightarrow> jsval \<Rightarrow> string list \<Rightarrow>
     bool \<Rightarrow> (string \<times> jsval) list \<Rightarrow> error + bool \<times> (string \<times> jsval) list" where
  "combination_loop h renv frs state action [] hasChanged nextState = Inr (hasChanged, nextState)"
| "combination_loop h renv frs state action (key # keys) hasChanged nextState =
     (case member h state key of
        Inl e \<Rightarrow> Inl e
      | Inr previousStateForKey \<Rightarrow>
          (case map_of frs key of
             None \<Rightarrow> Inl (TypeError ''reducer is not a function'')
           | Some reducer \<Rightarrow>
               (case renv reducer previousStateForKey action of
                  Inl e \<Rightarrow> Inl e
                | Inr nextStateForKey \<Rightarrow>
                    if typeof nextStateForKey = ''undefined''
                    then (case getUndefinedStateErrorMessage h key action of
                            Inl e \<Rightarrow> Inl e
                          | Inr errorMessage \<Rightarrow> Inl (Error errorMessage))
                    else combination_loop h renv frs state action keys
                           (hasChanged \<or> \<not> strict_eq nextStateForKey previousStateForKey)
                           (assign nextState key nextStateForKey))))"

text \<open>
  \<^verbatim>\<open>combination(state = {}, action)\<close>: what the call returns or raises, and the variables
  of the closure afterwards.  The default \<^verbatim>\<open>{}\<close> of \<open>state\<close> is allocated with identity
  \<open>fresh\<close>, \<^verbatim>\<open>nextState\<close> with the next one.
\<close>

definition combination ::
  "host \<Rightarrow> actionTypes \<Rightarrow> (nat \<Rightarrow> reducer) \<Rightarrow> combined \<Rightarrow> nat \<Rightarrow> jsval \<Rightarrow> jsval \<Rightarrow>
     (error + jsval) \<times> combined" where
  "combination h at renv c fresh state0 action =
     (let state = (if state0 = VUndefined then object_literal h fresh [] else state0)
      in (case shapeAssertionError c of
            Some e \<Rightarrow> (Inl e, c)
          | None \<Rightarrow>
              (case combination_warn h at renv c state action of
                 (Some e, c1) \<Rightarrow> (Inl e, c1)
               | (None, c1) \<Rightarrow>
                   (case combination_loop h renv (finalReducers c) state action (finalReducerKeys c)
                           False [] of
                      Inl e \<Rightarrow> (Inl e, c1)
                    | Inr (hasChanged, nextState) \<Rightarrow>
                        (Inr (if hasChanged then object_literal h (Suc fresh) nextState else state),
                         c1)))))"

text \<open>
  What the specification asks of a reducer at validation: a defined value for the state
  \<^verbatim>\<open>undefined\<close> and the \<^verbatim>\<open>INIT\<close> action, and for the state \<^verbatim>\<open>undefined\<close> and an action of
  a probe type, whichever objects carry these types.
\<close>

definition passes_validation :: "host \<Rightarrow> actionTypes \<Rightarrow> reducer \<Rightarrow> bool" where
  "passes_validation h at r =
     ((\<forall>i. \<exists>v. r VUndefined (init_action h at i) = Inr v \<and> v \<noteq> VUndefined) \<and>
      (\<forall>i n. \<exists>v. r VUndefined (probe_action h at i n) = Inr v \<and> v \<noteq> VUndefined))"

text \<open>
  A reducer that returns \<^verbatim>\<open>undefined\<close> for the \<^verbatim>\<open>INIT\<close> action, and one that returns
  a defined value for it but \<^verbatim>\<open>undefined\<close> for the probe types.
\<close>

definition undefined_on_init :: "host \<Rightarrow> actionTypes \<Rightarrow> reducer \<Rightarrow> bool" where
  "undefined_on_init h at r = (\<forall>i. r VUndefined (init_action h at i) = Inr VUndefined)"

definition undefined_on_probe :: "host \<Rightarrow> actionTypes \<Rightarrow> reducer \<Rightarrow> bool" where
  "undefined_on_probe h at r =
     ((\<forall>i. \<exists>v. r VUndefined (init_action h at i) = Inr v \<and> v \<noteq> VUndefined) \<and>
      (\<forall>i n. r VUndefined (probe_action h at i n) = Inr VUndefined))"

text \<open>
  The entries of an object's own properties whose value is a function, and those of
  them that \<open>assign\<close> keeps.
\<close>

fun callable_entries :: "(string \<times> jsval) list \<Rightarrow> (string \<times> nat) list" where
  "callable_entries [] = []"
| "callable_entries ((k, v) # ps) =
     (case v of VFun f \<Rightarrow> (k, f) # callable_entries ps | _ \<Rightarrow> callable_entries ps)"

definition kept_entries :: "(string \<times> jsval) list \<Rightarrow> (string \<times> nat) list" where
  "kept_entries ps = filter (\<lambda>p. fst p \<noteq> ''__proto__'') (callable_entries ps)"

text \<open>
  The shape check of a call does not raise: the build is the production build, or no
  reducer is registered under the key \<^verbatim>\<open>hasOwnProperty\<close>, or the state is not a plain
  object, or that reducer returns for every key of the state (the check calls it on the
  keys of a plain state).
\<close>

definition shape_check_returns :: "host \<Rightarrow> (nat \<Rightarrow> reducer) \<Rightarrow> combined \<Rightarrow> jsval \<Rightarrow> bool" where
  "shape_check_returns h renv c state =
     (strict_eq (NODE_ENV h) (VStr ''production'') \<or>
      (case map_of (finalReducers c) ''hasOwnProperty'' of
         None \<Rightarrow> True
       | Some reducer \<Rightarrow>
           (case state of
              VObj ob \<Rightarrow>
                \<not> isPlainObject state \<or>
                list_all (\<lambda>key. case renv reducer (VStr key) VUndefined of
                                  Inl e \<Rightarrow> False
                                | Inr v \<Rightarrow> True) (map fst (props ob))
            | _ \<Rightarrow> True)))"

section \<open>bindActionCreators (src/src/bindActionCreators.js)\<close>

text \<open>
  An action creator and the \<^verbatim>\<open>dispatch\<close> given to \<^verbatim>\<open>bindActionCreators\<close> are arbitrary functions: a
  call takes \<^verbatim>\<open>this\<close>, the arguments and the state of the world \<open>'w\<close> it may change, and
  returns a value or raises, or does not return (\<open>None\<close>).  Calling a value that is not a
  function raises a \<^verbatim>\<open>TypeError\<close>.
\<close>

type_synonym 'w jsfun = "jsval \<Rightarrow> jsval list \<Rightarrow> 'w \<Rightarrow> ((error + jsval) \<times> 'w) option"

definition call_function ::
  "(nat \<Rightarrow> 'w jsfun) \<Rightarrow> jsval \<Rightarrow> jsval \<Rightarrow> jsval list \<Rightarrow> 'w \<Rightarrow> ((error + jsval) \<times> 'w) option" where
  "call_function fenv f this arguments w =
     (case f of
        VFun n \<Rightarrow> fenv n this arguments w
      | _ \<Rightarrow> Some (Inl (TypeError ''not a function''), w))"

text \<open>
  The closure \<^verbatim>\<open>function() { return dispatch(actionCreator.apply(this, arguments)) }\<close>:
  \<^verbatim>\<open>dispatch\<close> is called with no \<^verbatim>\<open>this\<close> and one argument.
\<close>

definition bindActionCreator :: "(nat \<Rightarrow> 'w jsfun) \<Rightarrow> jsval \<Rightarrow> jsval \<Rightarrow> 'w jsfun" where
  "bindActionCreator fenv actionCreator dispatch' = (\<lambda>this arguments w.
     case call_function fenv actionCreator this arguments w of
       None \<Rightarrow> None
     | Some (Inl e, w') \<Rightarrow> Some (Inl e, w')
     | Some (Inr action, w') \<Rightarrow> call_function fenv dispatch' VUndefined [action] w')"

text \<open>
  What \<^verbatim>\<open>bindActionCreators\<close> returns: a closure, or a new object, given by the closure
  the loop has made its prototype (\<open>None\<close> when the prototype is \<^verbatim>\<open>Object.prototype\<close>
  still) and by its properties, all closures; its identity is left out.
\<close>

datatype 'w bound =
    BoundFunction "'w jsfun"
  | BoundObject "'w jsfun option" "(string \<times> 'w jsfun) list"

text \<open>
  The loop, with the prototype and the properties of \<open>boundActionCreators\<close> so far: the
  assignment to the key \<^verbatim>\<open>__proto__\<close> makes the closure the prototype of the object.
\<close>

fun bindActionCreators_loop ::
  "host \<Rightarrow> (nat \<Rightarrow> 'w jsfun) \<Rightarrow> jsval \<Rightarrow> jsval \<Rightarrow> string list \<Rightarrow>
     'w jsfun option \<times> (string \<times> 'w jsfun) list \<Rightarrow>
     error + 'w jsfun option \<times> (string \<times> 'w jsfun) list" where
  "bindActionCreators_loop h fenv actionCreators dispatch' [] (prototype, boundActionCreators) =
     Inr (prototype, boundActionCreators)"
| "bindActionCreators_loop h fenv actionCreators dispatch' (key # keys)
       (prototype, boundActionCreators) =
     (case member h actionCreators key of
        Inl e \<Rightarrow> Inl e
      | Inr actionCreator \<Rightarrow>
          if typeof actionCreator = ''function''
          then bindActionCreators_loop h fenv actionCreators dispatch' keys
                 (if key = ''__proto__''
                  then Some (bindActionCreator fenv actionCreator dispatch') else prototype,
                  assign boundActionCreators key (bindActionCreator fenv actionCreator dispatch'))
          else bindActionCreators_loop h fenv actionCreators dispatch' keys
                 (prototype, boundActionCreators))"

definition InvalidActionCreatorsError :: "jsval \<Rightarrow> error" where
  "InvalidActionCreatorsError actionCreators =
     Error (''bindActionCreators expected an object or a function, instead received '' @
            (if actionCreators = VNull then ''null'' else typeof actionCreators) @ ''. '' @
            ''Did you write '' @ dq @ ''import ActionCreators from'' @ dq @ '' instead of '' @
            dq @ ''import * as ActionCreators from'' @ dq @ ''?'')"

definition bindActionCreators ::
  "host \<Rightarrow> (nat \<Rightarrow> 'w jsfun) \<Rightarrow> jsval \<Rightarrow> jsval \<Rightarrow> error + 'w bound" where
  "bindActionCreators h fenv actionCreators dispatch' =
     (if typeof actionCreators = ''function''
      then Inr (BoundFunction (bindActionCreator fenv actionCreators dispatch'))
      else if typeof actionCreators \<noteq> ''object'' \<or> actionCreators = VNull
      then Inl (InvalidActionCreatorsError actionCreators)
      else (case Object_keys h actionCreators of
          Inl e \<Rightarrow> Inl e
        | Inr keys \<Rightarrow>
            (case bindActionCreators_loop h fenv actionCreators dispatch' keys (None, []) of
               Inl e \<Rightarrow> Inl e
             | Inr (prototype, boundActionCreators) \<Rightarrow>
                 Inr (BoundObject prototype boundActionCreators))))"


section \<open>Concrete inputs\<close>

text \<open>
  A host with an empty \<^verbatim>\<open>Object.prototype\<close> and the development build, in which
  \<^verbatim>\<open>String\<close> of an object made with \<^verbatim>\<open>Object.create(null)\<close> throws, as such an object has
  no \<^verbatim>\<open>toString\<close>; the action types, and the counter of the
  specification's end-to-end scenario:
  \<^verbatim>\<open>counter(s = 0, act) => act.type === 'INC' ? s + 1 : s\<close> (on numbers).
\<close>

definition example_host :: host where
  "example_host = \<lparr>Object_prototype_ident = 0, Object_prototype_props = [],
     wrapper_get = (\<lambda>v k. VUndefined), wrapper_keys = (\<lambda>v. []),
     host_String = (\<lambda>v. case v of
         VObj ob \<Rightarrow>
           if proto ob = None \<and> ident ob \<noteq> 0
           then Inl (TypeError ''Cannot convert object to primitive value'')
           else Inr ''[object Object]''
       | VNum n \<Rightarrow> Inr ''1e+21''
       | _ \<Rightarrow> Inr ''function () { [native code] }''),
     class_name = (\<lambda>v. case v of VFun f \<Rightarrow> ''Function'' | _ \<Rightarrow> ''Object''),
     NODE_ENV = VStr ''development''\<rparr>"

definition example_types :: actionTypes where
  "example_types = \<lparr>INIT = ''@@redux/INIT'', REPLACE = ''@@redux/REPLACE'',
     PROBE_UNKNOWN_ACTION = (\<lambda>n. ''@@redux/PROBE_UNKNOWN_ACTION'' @ string_of_nat n)\<rparr>"

definition counter :: reducer where
  "counter state action =
     (let s = (if state = VUndefined then VNum 0 else state)
      in (case member example_host action ''type'' of
            Inl e \<Rightarrow> Inl e
          | Inr t \<Rightarrow>
              if strict_eq t (VStr ''INC'')
              then (case s of VNum n \<Rightarrow> Inr (VNum (n + 1)) | _ \<Rightarrow> Inr s)
              else Inr s))"

definition failing :: reducer where
  "failing state action = Inl (Error ''reducer failed'')"

text \<open>
  \<^verbatim>\<open>(s = 0, act) => s\<close>, \<^verbatim>\<open>(s) => undefined\<close> (the two reducers of the specification's
  composite-validation scenario), \<^verbatim>\<open>(s = 0, act) => act.type === x ? undefined : s\<close> and
  \<^verbatim>\<open>(s = 0, act) => act.type ? s : undefined\<close>.
\<close>

definition keep :: reducer where
  "keep state action = Inr (if state = VUndefined then VNum 0 else state)"

definition always_undefined :: reducer where
  "always_undefined state action = Inr VUndefined"

definition undefined_on :: "string \<Rightarrow> reducer" where
  "undefined_on x state action =
     (case member example_host action ''type'' of
        Inl e \<Rightarrow> Inl e
      | Inr t \<Rightarrow>
          if strict_eq t (VStr x) then Inr VUndefined
          else Inr (if state = VUndefined then VNum 0 else state))"

definition undefined_untyped :: reducer where
  "undefined_untyped state action =
     (case member example_host action ''type'' of
        Inl e \<Rightarrow> Inl e
      | Inr t \<Rightarrow>
          if truthy t then Inr (if state = VUndefined then VNum 0 else state)
          else Inr VUndefined)"

text \<open>
  \<^verbatim>\<open>(s = 0, act) => typeof act.type === 'object' ? undefined : s\<close> and
  \<^verbatim>\<open>(s, act) => s\<close>, which has no initial state.
\<close>

definition unchanged :: reducer where
  "unchanged state action = Inr state"

definition undefined_on_object :: reducer where
  "undefined_on_object state action =
     (case member example_host action ''type'' of
        Inl e \<Rightarrow> Inl e
      | Inr t \<Rightarrow>
          if typeof t = ''object'' then Inr VUndefined
          else Inr (if state = VUndefined then VNum 0 else state))"

definition example_renv :: "nat \<Rightarrow> reducer" where
  "example_renv f =
     (if f = 0 then counter
      else if f = 10 then keep
      else if f = 11 then always_undefined
      else if f = 12 then undefined_on ''X''
      else if f = 13 then undefined_untyped
      else if f = 14 then undefined_on_object
      else if f = 15 then unchanged
      else failing)"

definition INC :: jsval where
  "INC = object_literal example_host 7 [(''type'', VStr ''INC'')]"

text \<open>
  The actions \<^verbatim>\<open>{type: 'X'}\<close>, \<^verbatim>\<open>{type: 'NOP'}\<close>, \<^verbatim>\<open>{}\<close> and
  \<^verbatim>\<open>{type: Object.create(null)}\<close>.
\<close>

definition action_X :: jsval where
  "action_X = object_literal example_host 8 [(''type'', VStr ''X'')]"

definition NOP :: jsval where
  "NOP = object_literal example_host 8 [(''type'', VStr ''NOP'')]"

definition untyped :: jsval where
  "untyped = object_literal example_host 8 []"

definition odd_typed :: jsval where
  "odd_typed = object_literal example_host 8 [(''type'', VObj (Obj 9 None []))]"

text \<open>
  The functions used as reducers are those of \<open>example_renv\<close>.  Listener 1
  (A), when it sees the state 1, unsubscribes the closure 1 (that of listener 2, B) and
  subscribes listener 3 (C); listener 4 raises; the others do nothing.
\<close>

definition example_callbacks :: callbacks where
  "example_callbacks = \<lparr>
     reducer_body = example_renv,
     listener_body = (\<lambda>l v.
       if l = 1 then (if v = VNum 1 then [Unsubscribe 1, Subscribe (VFun 3)] else [])
       else if l = 4 then [Raise (Error ''listener failed'')]
       else [])\<rparr>"

text \<open>
  Listeners that may dispatch: listener 1 (A) dispatches \<^verbatim>\<open>{type: 'INC'}\<close> when it finds
  the state 1, \<^verbatim>\<open>() => { if (store.getState() === 1) store.dispatch({type: 'INC'}) }\<close>; the
  others do nothing.
\<close>

definition example_steps :: "nat \<Rightarrow> jsval \<Rightarrow> step list" where
  "example_steps l v = (if l = 1 \<and> v = VNum 1 then [Dispatch INC] else [])"

text \<open>
  The store \<^verbatim>\<open>createStore(counter)\<close> returns, and the store with reducer \<open>r\<close> after the
  listeners \<open>ls\<close> were subscribed to it, one after the other.
\<close>

definition example_created :: store where
  "example_created = \<lparr>currentReducer = 0, currentState = VNum 0,
     currentListeners = 0, nextListeners = 0, isDispatching = False,
     arrays = (\<lambda>a. []), allocated = 1, closures = [], invoked = []\<rparr>"

definition example_store :: "nat \<Rightarrow> nat list \<Rightarrow> store" where
  "example_store r ls = \<lparr>currentReducer = r, currentState = VNum 0,
     currentListeners = 0, nextListeners = 1, isDispatching = False,
     arrays = (\<lambda>a. if a = 1 then ls else []), allocated = 2,
     closures = map (\<lambda>l. (l, True)) ls, invoked = []\<rparr>"

text \<open>
  To the created store listener 5 is subscribed, then 6, then 5 again, and the
  \<^verbatim>\<open>unsubscribe\<close> of the last subscription is called.
\<close>

definition example_twice :: store where
  "example_twice =
     snd (unsubscribe 2
       (snd (subscribe (VFun 5)
         (snd (subscribe (VFun 6)
           (snd (subscribe (VFun 5) example_created)))))))"

text \<open>
  The mappings \<^verbatim>\<open>{a: keep, b: <function b>}\<close>, \<^verbatim>\<open>{count: counter, label: keep, n: 3}\<close>,
  \<^verbatim>\<open>{a: failing, b: always_undefined}\<close> and \<^verbatim>\<open>{hasOwnProperty: counter}\<close>, the variables
  of the closure \<^verbatim>\<open>combineReducers\<close> returns for the entries \<open>frs\<close> when nothing is
  printed and validation passes, or fails with the error \<open>e\<close>, and states for them.
\<close>

definition mapping_ab :: "nat \<Rightarrow> obj" where
  "mapping_ab b = Obj 20 (Some (Object_prototype example_host)) [(''a'', VFun 10), (''b'', VFun b)]"

definition mapping_count :: obj where
  "mapping_count = Obj 21 (Some (Object_prototype example_host))
     [(''count'', VFun 0), (''label'', VFun 10), (''n'', VNum 3)]"

definition mapping_failing :: obj where
  "mapping_failing = Obj 23 (Some (Object_prototype example_host))
     [(''a'', VFun 5), (''b'', VFun 11)]"

definition mapping_hasOwnProperty :: obj where
  "mapping_hasOwnProperty = Obj 24 (Some (Object_prototype example_host))
     [(''hasOwnProperty'', VFun 0)]"

definition valid_closure :: "(string \<times> nat) list \<Rightarrow> combined" where
  "valid_closure frs = \<lparr>finalReducers = frs, finalReducerKeys = map fst frs,
     unexpectedKeyCache = [], shapeAssertionError = None, printed = []\<rparr>"

definition invalid_closure :: "(string \<times> nat) list \<Rightarrow> error \<Rightarrow> combined" where
  "invalid_closure frs e = \<lparr>finalReducers = frs, finalReducerKeys = map fst frs,
     unexpectedKeyCache = [], shapeAssertionError = Some e, printed = []\<rparr>"

definition state_count :: obj where
  "state_count = Obj 30 (Some (Object_prototype example_host))
     [(''count'', VNum 0), (''label'', VStr ''x'')]"

definition state_ab :: obj where
  "state_ab = Obj 31 (Some (Object_prototype example_host)) [(''a'', VNum 1), (''b'', VNum 2)]"

definition state_a :: obj where
  "state_a = Obj 32 (Some (Object_prototype example_host)) [(''a'', VNum 1)]"

definition state_hasOwnProperty :: obj where
  "state_hasOwnProperty = Obj 33 (Some (Object_prototype example_host))
     [(''hasOwnProperty'', VNum 0)]"




text \<open>
  Reducers that call the store and let what it raises escape:
  \<^verbatim>\<open>(s, act) => store.getState()\<close>, \<^verbatim>\<open>(s, act) => { store.subscribe(l); return s }\<close> and
  \<^verbatim>\<open>(s, act) => { unsubscribe(); return s }\<close> for the \<^verbatim>\<open>unsubscribe\<close> closure \<open>k\<close>.
\<close>

definition uncaught :: "jsval \<Rightarrow> reply \<Rightarrow> program" where
  "uncaught v a = (case a of Raised e \<Rightarrow> Done (Inl e) | Got w \<Rightarrow> Done (Inr w) | _ \<Rightarrow> Done (Inr v))"

definition reading_reducer :: "nat \<Rightarrow> jsval \<Rightarrow> jsval \<Rightarrow> program" where
  "reading_reducer f state action = Call GetState (uncaught state)"

definition subscribing_reducer :: "jsval \<Rightarrow> nat \<Rightarrow> jsval \<Rightarrow> jsval \<Rightarrow> program" where
  "subscribing_reducer l f state action = Call (Subscribe l) (uncaught state)"

definition unsubscribing_reducer :: "nat \<Rightarrow> nat \<Rightarrow> jsval \<Rightarrow> jsval \<Rightarrow> program" where
  "unsubscribing_reducer k f state action = Call (Unsubscribe k) (uncaught state)"

section \<open>isPlainObject: lemmas and claim\<close>

lemma isPlainObject_loop_root: "proto (isPlainObject_loop ob) = None"
  by (induction ob rule: isPlainObject_loop.induct) auto

lemma isPlainObject_loop_in_chain: "isPlainObject_loop ob \<in> set (proto_chain ob)"
  by (induction ob rule: isPlainObject_loop.induct) auto

lemma isPlainObject_obj:
  "isPlainObject (VObj ob) =
     (case proto ob of None \<Rightarrow> False | Some p \<Rightarrow> ident p = ident (isPlainObject_loop ob))"
  by (simp add: isPlainObject_def typeof_def getPrototypeOf_def)

lemma isPlainObject_one_level:
  assumes "proto ob = Some p" and "proto p = None"
  shows "isPlainObject (VObj ob)"
proof -
  obtain i ps where ob: "ob = Obj i (Some p) ps"
    using assms(1) by (cases ob) auto
  obtain j qs where p: "p = Obj j None qs"
    using assms(2) by (cases p) auto
  show ?thesis
    by (simp add: isPlainObject_obj ob p)
qed

lemma isPlainObject_deeper:
  assumes "proto ob = Some p" and "proto p = Some q" and "acyclic_protos ob"
  shows "\<not> isPlainObject (VObj ob)"
proof -
  obtain i ps where ob: "ob = Obj i (Some p) ps"
    using assms(1) by (cases ob) auto
  obtain j qs where p: "p = Obj j (Some q) qs"
    using assms(2) by (cases p) auto
  have "isPlainObject_loop q \<in> set (proto_chain q)"
    by (rule isPlainObject_loop_in_chain)
  moreover have "ident p \<notin> ident ` set (proto_chain q)"
    using assms(3) by (simp add: acyclic_protos_def ob p)
  ultimately have "ident p \<noteq> ident (isPlainObject_loop q)"
    by blast
  then show ?thesis
    by (simp add: isPlainObject_obj ob p)
qed


text \<open>
  C4, as the code has it.  \<^verbatim>\<open>isPlainObject\<close> is false for \<^verbatim>\<open>null\<close>, for every primitive and
  for every function; false for an object whose prototype is \<^verbatim>\<open>null\<close>; true for an
  object whose prototype is the root of its chain (a record literal); false for an
  object with a longer chain (an array, a class instance).
\<close>

theorem isPlainObject_cases:
  "\<not> isPlainObject VNull \<and> \<not> isPlainObject VUndefined \<and> \<not> isPlainObject (VBool b) \<and>
   \<not> isPlainObject (VNum n) \<and> \<not> isPlainObject (VStr x) \<and> \<not> isPlainObject (VFun f) \<and>
   (proto ob = None \<longrightarrow> \<not> isPlainObject (VObj ob)) \<and>
   (\<forall>p. proto ob = Some p \<and> proto p = None \<longrightarrow> isPlainObject (VObj ob)) \<and>
   (\<forall>p q. proto ob = Some p \<and> proto p = Some q \<and> acyclic_protos ob \<longrightarrow>
      \<not> isPlainObject (VObj ob))"
proof -
  have prim: "\<not> isPlainObject VNull" "\<not> isPlainObject VUndefined" "\<not> isPlainObject (VBool b)"
    "\<not> isPlainObject (VNum n)" "\<not> isPlainObject (VStr x)" "\<not> isPlainObject (VFun f)"
    by (simp_all add: isPlainObject_def typeof_def)
  have null: "proto ob = None \<longrightarrow> \<not> isPlainObject (VObj ob)"
    by (simp add: isPlainObject_obj)
  from prim null isPlainObject_one_level isPlainObject_deeper show ?thesis
    by blast
qed

theorem isPlainObject_cases_witness:
  "proto (Obj 1 None [(''a'', VNum 1)]) = None \<and>
   \<not> isPlainObject (VObj (Obj 1 None [(''a'', VNum 1)])) \<and>
   proto (Obj 2 (Some (Obj 0 None [])) [(''type'', VStr ''INC'')]) = Some (Obj 0 None []) \<and>
   proto (Obj 0 None []) = None \<and>
   isPlainObject (VObj (Obj 2 (Some (Obj 0 None [])) [(''type'', VStr ''INC'')])) \<and>
   proto (Obj 3 (Some (Obj 4 (Some (Obj 0 None [])) [])) [(''0'', VNum 7)]) =
     Some (Obj 4 (Some (Obj 0 None [])) []) \<and>
   proto (Obj 4 (Some (Obj 0 None [])) []) = Some (Obj 0 None []) \<and>
   acyclic_protos (Obj 3 (Some (Obj 4 (Some (Obj 0 None [])) [])) [(''0'', VNum 7)]) \<and>
   \<not> isPlainObject (VObj (Obj 3 (Some (Obj 4 (Some (Obj 0 None [])) [])) [(''0'', VNum 7)]))"
  using isPlainObject_cases [where ob = "Obj 1 None [(''a'', VNum 1)]"]
    isPlainObject_cases [where ob = "Obj 2 (Some (Obj 0 None [])) [(''type'', VStr ''INC'')]"]
    isPlainObject_cases [where ob = "Obj 3 (Some (Obj 4 (Some (Obj 0 None [])) [])) [(''0'', VNum 7)]"]
  by (simp add: acyclic_protos_def)

text \<open>The claim as stated fails: an object with a \<^verbatim>\<open>null\<close> prototype is not plain.\<close>

theorem isPlainObject_null_prototype_counterexample:
  "proto (Obj 1 None [(''type'', VStr ''INC'')]) = None \<and>
   isPlainObject (VObj (Obj 1 None [(''type'', VStr ''INC'')])) = False"
  by (simp add: isPlainObject_def typeof_def getPrototypeOf_def)

section \<open>The store: lemmas\<close>

lemma ensure_frame:
  "isDispatching (ensureCanMutateNextListeners s) = isDispatching s"
  "currentState (ensureCanMutateNextListeners s) = currentState s"
  "currentReducer (ensureCanMutateNextListeners s) = currentReducer s"
  "currentListeners (ensureCanMutateNextListeners s) = currentListeners s"
  "closures (ensureCanMutateNextListeners s) = closures s"
  "invoked (ensureCanMutateNextListeners s) = invoked s"
  by (simp_all add: ensureCanMutateNextListeners_def)

lemma ensure_ok:
  assumes "store_ok s"
  shows "store_ok (ensureCanMutateNextListeners s)"
    and "nextListeners (ensureCanMutateNextListeners s) \<noteq> currentListeners s"
    and "pending (ensureCanMutateNextListeners s) = pending s"
    and "arrays (ensureCanMutateNextListeners s) (currentListeners s) = arrays s (currentListeners s)"
  using assms by (auto simp: ensureCanMutateNextListeners_def store_ok_def pending_def)

lemma run_call_sim:
  assumes "store_ok s" and "\<not> isDispatching s" and "run_call c s = (r, s')"
  shows "frame s s' \<and> spec_call c (pending s, closures s) = (r, (pending s', closures s'))"
  using assms
  apply (cases c)
     apply (auto simp: run_call_def spec_call_def getState_def frame_def subscribe_def unsubscribe_def Let_def
        ensure_frame ensure_ok pending_def store_ok_def ensureCanMutateNextListeners_def
        split: jsval.splits if_splits prod.splits sum.splits)
  done

lemma frame_trans: "frame s s1 \<Longrightarrow> frame s1 s2 \<Longrightarrow> frame s s2"
  by (simp add: frame_def)

lemma frame_refl: "store_ok s \<Longrightarrow> frame s s"
  by (simp add: frame_def)

lemma run_body_sim:
  assumes "store_ok s" and "\<not> isDispatching s" and "run_body cs s = (r, s')"
  shows "frame s s' \<and> spec_body cs (pending s, closures s) = (r, (pending s', closures s'))"
  using assms
proof (induction cs arbitrary: s)
  case Nil
  then show ?case by (simp add: frame_refl)
next
  case (Cons c cs)
  obtain r1 s1 where c: "run_call c s = (r1, s1)"
    by (cases "run_call c s") auto
  from run_call_sim [OF Cons.prems(1,2) c]
  have f1: "frame s s1" and sp: "spec_call c (pending s, closures s) = (r1, (pending s1, closures s1))"
    by auto
  show ?case
  proof (cases r1)
    case None
    with c Cons.prems(3) have rest: "run_body cs s1 = (r, s')"
      by simp
    from f1 Cons.prems(2) have ok1: "store_ok s1" and idle1: "\<not> isDispatching s1"
      by (auto simp: frame_def)
    from Cons.IH [OF ok1 idle1 rest] f1 sp None show ?thesis
      by (auto intro: frame_trans)
  next
    case (Some e)
    with c Cons.prems(3) f1 sp show ?thesis
      by auto
  qed
qed

lemma call_listener_sim:
  assumes "store_ok s" and "\<not> isDispatching s" and "call_listener cb l s = (r, s')"
  shows "store_ok s' \<and> \<not> isDispatching s' \<and> currentState s' = currentState s \<and>
     currentReducer s' = currentReducer s \<and> currentListeners s' = currentListeners s \<and>
     arrays s' (currentListeners s) = arrays s (currentListeners s) \<and>
     invoked s' = invoked s @ [l] \<and>
     spec_body (listener_body cb l (currentState s)) (pending s, closures s) =
       (r, (pending s', closures s'))"
proof -
  let ?s0 = "s\<lparr>invoked := invoked s @ [l]\<rparr>"
  have ok0: "store_ok ?s0" and idle0: "\<not> isDispatching ?s0"
    using assms(1,2) by (simp_all add: store_ok_def)
  have run: "run_body (listener_body cb l (currentState s)) ?s0 = (r, s')"
    using assms(3) by (simp add: call_listener_def)
  from run_body_sim [OF ok0 idle0 run] assms(2) show ?thesis
    by (simp add: frame_def pending_def)
qed

lemma dispatch_loop_sim:
  assumes "store_ok s" and "\<not> isDispatching s" and "i \<le> length (arrays s (currentListeners s))"
  shows "\<exists>r s'. dispatch_loop cb (currentListeners s) i s = Some (r, s') \<and>
     store_ok s' \<and> \<not> isDispatching s' \<and> currentState s' = currentState s \<and>
     currentReducer s' = currentReducer s \<and> currentListeners s' = currentListeners s \<and>
     spec_notify cb (currentState s) (drop i (arrays s (currentListeners s))) (invoked s)
        (pending s, closures s) = (r, invoked s', (pending s', closures s'))"
  using assms
proof (induction "length (arrays s (currentListeners s)) - i" arbitrary: i s)
  case 0
  then have "i = length (arrays s (currentListeners s))"
    by simp
  then show ?case
    using "0.prems" by (subst dispatch_loop.simps) simp
next
  case (Suc n)
  let ?L = "currentListeners s"
  let ?xs = "arrays s ?L"
  from Suc.hyps(2) have lt: "i < length ?xs"
    by simp
  obtain r1 s1 where c: "call_listener cb (?xs ! i) s = (r1, s1)"
    by (cases "call_listener cb (?xs ! i) s") auto
  note sim = call_listener_sim [OF Suc.prems(1,2) c]
  have dr: "drop i ?xs = ?xs ! i # drop (Suc i) ?xs"
    using lt by (simp add: Cons_nth_drop_Suc)
  show ?case
  proof (cases r1)
    case (Some e)
    have "dispatch_loop cb ?L i s = Some (Some e, s1)"
      using lt c Some by (subst dispatch_loop.simps) simp
    with sim Some dr show ?thesis
      by simp
  next
    case None
    have step: "dispatch_loop cb ?L i s = dispatch_loop cb ?L (Suc i) s1"
      using lt c None by (subst dispatch_loop.simps) simp
    from sim have ok1: "store_ok s1" and idle1: "\<not> isDispatching s1"
      and cur: "currentListeners s1 = ?L" and arr: "arrays s1 ?L = ?xs"
      by auto
    have n: "n = length (arrays s1 (currentListeners s1)) - Suc i"
      using Suc.hyps(2) cur arr by simp
    have le: "Suc i \<le> length (arrays s1 (currentListeners s1))"
      using lt cur arr by simp
    from Suc.hyps(1) [OF n ok1 idle1 le] obtain r s' where
      res: "dispatch_loop cb (currentListeners s1) (Suc i) s1 = Some (r, s')"
        "store_ok s'" "\<not> isDispatching s'" "currentState s' = currentState s1"
        "currentReducer s' = currentReducer s1" "currentListeners s' = currentListeners s1"
        "spec_notify cb (currentState s1) (drop (Suc i) (arrays s1 (currentListeners s1))) (invoked s1)
          (pending s1, closures s1) = (r, invoked s', (pending s', closures s'))"
      by blast
    from res sim step None dr cur arr show ?thesis
      by simp
  qed
qed

lemma spec_call_quiet:
  assumes "quiet [c]"
  shows "fst (spec_call c ps) = None"
  using assms by (cases c) (auto simp: quiet_def spec_call_def typeof_def split: jsval.splits)

lemma spec_body_quiet:
  assumes "quiet cs"
  shows "fst (spec_body cs ps) = None"
  using assms
proof (induction cs arbitrary: ps)
  case Nil
  then show ?case by simp
next
  case (Cons c cs)
  then have c: "quiet [c]" and cs: "quiet cs"
    by (simp_all add: quiet_def)
  obtain ps' where "spec_call c ps = (None, ps')"
    using spec_call_quiet [OF c, of ps] by (cases "spec_call c ps") auto
  with Cons.IH [OF cs] show ?case
    by simp
qed

lemma spec_notify_prefix:
  assumes "spec_notify cb v ls seen ps = (r, seen', ps')"
  shows "\<exists>n\<le>length ls. seen' = seen @ take n ls \<and> (r = None \<longrightarrow> n = length ls) \<and>
     (r \<noteq> None \<longrightarrow> 0 < n)"
  using assms
proof (induction ls arbitrary: seen ps)
  case Nil
  then show ?case by simp
next
  case (Cons l ls)
  obtain r1 ps1 where b: "spec_body (listener_body cb l v) ps = (r1, ps1)"
    by (cases "spec_body (listener_body cb l v) ps") auto
  show ?case
  proof (cases r1)
    case None
    with b Cons.prems have "spec_notify cb v ls (seen @ [l]) ps1 = (r, seen', ps')"
      by simp
    from Cons.IH [OF this] obtain n where "n \<le> length ls" "seen' = (seen @ [l]) @ take n ls"
      "r = None \<longrightarrow> n = length ls" "r \<noteq> None \<longrightarrow> 0 < n"
      by blast
    then show ?thesis
      by (intro exI [of _ "Suc n"]) simp
  next
    case (Some e)
    with b Cons.prems have "seen' = seen @ [l]" "r = Some e"
      by simp_all
    then show ?thesis
      by (intro exI [of _ "Suc 0"]) simp
  qed
qed

lemma spec_notify_quiet:
  assumes "\<forall>l. quiet (listener_body cb l v)"
  shows "fst (spec_notify cb v ls seen ps) = None"
proof (induction ls arbitrary: seen ps)
  case Nil
  then show ?case by simp
next
  case (Cons l ls)
  have "fst (spec_body (listener_body cb l v) ps) = None"
    using assms by (simp add: spec_body_quiet)
  then obtain ps1 where "spec_body (listener_body cb l v) ps = (None, ps1)"
    by (cases "spec_body (listener_body cb l v) ps") auto
  with Cons.IH show ?case
    by simp
qed

text \<open>What dispatch does once the action is checked and the store is idle.\<close>

lemma dispatch_checked:
  assumes "isPlainObject action" and "member h action ''type'' = Inr t"
    and "typeof t \<noteq> ''undefined''" and "\<not> isDispatching s"
  shows "dispatch h cb action s =
     (case reducer_body cb (currentReducer s) (currentState s) action of
        Inl e \<Rightarrow> Some (Inl e, s)
      | Inr v \<Rightarrow>
          (case dispatch_loop cb (nextListeners s) 0
                  (s\<lparr>currentState := v, currentListeners := nextListeners s\<rparr>) of
             None \<Rightarrow> None
           | Some (Some e, s') \<Rightarrow> Some (Inl e, s')
           | Some (None, s') \<Rightarrow> Some (Inr action, s')))"
proof -
  have idle: "s\<lparr>isDispatching := False\<rparr> = s"
    using assms(4) by simp
  have upd: "s\<lparr>currentState := x, isDispatching := False, currentListeners := n\<rparr> =
      s\<lparr>currentState := x, currentListeners := n\<rparr>" for x n
    using assms(4) by (cases s) simp
  show ?thesis
    using assms by (simp add: dispatch_def Let_def idle upd split: sum.splits)
qed

lemma dispatch_reducer_returns:
  assumes "store_ok s" and "\<not> isDispatching s" and "isPlainObject action"
    and "member h action ''type'' = Inr t" and "typeof t \<noteq> ''undefined''"
    and "reducer_body cb (currentReducer s) (currentState s) action = Inr v"
  shows "\<exists>r s'. dispatch h cb action s =
        Some ((case r of None \<Rightarrow> Inr action | Some e \<Rightarrow> Inl e), s') \<and>
     store_ok s' \<and> \<not> isDispatching s' \<and> currentState s' = v \<and>
     currentReducer s' = currentReducer s \<and> currentListeners s' = nextListeners s \<and>
     spec_notify cb v (pending s) (invoked s) (pending s, closures s) =
       (r, invoked s', (pending s', closures s'))"
proof -
  let ?s3 = "s\<lparr>currentState := v, currentListeners := nextListeners s\<rparr>"
  have ok3: "store_ok ?s3" and idle3: "\<not> isDispatching ?s3"
    using assms(1,2) by (simp_all add: store_ok_def)
  have le: "0 \<le> length (arrays ?s3 (currentListeners ?s3))"
    by simp
  from dispatch_loop_sim [OF ok3 idle3 le, of cb] obtain r s' where
    loop: "dispatch_loop cb (nextListeners s) 0 ?s3 = Some (r, s')"
    and rest: "store_ok s'" "\<not> isDispatching s'" "currentState s' = v"
      "currentReducer s' = currentReducer s" "currentListeners s' = nextListeners s"
      "spec_notify cb v (pending s) (invoked s) (pending s, closures s) =
         (r, invoked s', (pending s', closures s'))"
    by (auto simp: pending_def)
  have "dispatch h cb action s = Some ((case r of None \<Rightarrow> Inr action | Some e \<Rightarrow> Inl e), s')"
    using dispatch_checked [OF assms(3,4,5,2), of cb] assms(6) loop
    by (simp split: option.splits)
  with rest show ?thesis
    by blast
qed

lemma indexOf_absent: "x \<notin> set xs \<Longrightarrow> indexOf xs x = - 1"
  by (induction xs) (auto simp: Let_def)

lemma indexOf_present:
  "x \<in> set xs \<Longrightarrow> 0 \<le> indexOf xs x \<and> nat (indexOf xs x) < length xs \<and>
     take (nat (indexOf xs x)) xs @ drop (Suc (nat (indexOf xs x))) xs = remove1 x xs"
proof (induction xs)
  case Nil
  then show ?case by simp
next
  case (Cons y ys)
  show ?case
  proof (cases "y = x")
    case True
    then show ?thesis by simp
  next
    case False
    with Cons.prems have "x \<in> set ys"
      by simp
    from Cons.IH [OF this] False show ?thesis
      by (simp add: Let_def nat_add_distrib)
  qed
qed

lemma splice1_indexOf:
  assumes "x \<in> set xs"
  shows "splice1 xs (indexOf xs x) = remove1 x xs"
proof -
  note p = indexOf_present [OF assms]
  then have "indexOf xs x \<le> int (length xs)"
    by linarith
  with p show ?thesis
    by (simp add: splice1_def Let_def min_def)
qed

lemma subscribed_append: "subscribed (xs @ ys) = subscribed xs @ subscribed ys"
  by (simp add: subscribed_def)

lemma subscribed_unset:
  assumes "k < length cl" and "snd (cl ! k)" and "distinct (subscribed cl)"
  shows "subscribed (cl[k := (fst (cl ! k), False)]) = remove1 (fst (cl ! k)) (subscribed cl)"
proof -
  let ?l = "fst (cl ! k)"
  have cl: "cl = take k cl @ (?l, True) # drop (Suc k) cl"
    using assms(1,2) by (metis id_take_nth_drop prod.collapse)
  have upd: "cl[k := (?l, False)] = take k cl @ (?l, False) # drop (Suc k) cl"
    using assms(1) by (simp add: upd_conv_take_nth_drop)
  have sub: "subscribed cl = subscribed (take k cl) @ ?l # subscribed (drop (Suc k) cl)"
    by (subst cl) (simp add: subscribed_def)
  have "?l \<notin> set (subscribed (take k cl))"
    using assms(3) by (subst (asm) sub) simp
  then have "remove1 ?l (subscribed cl) = subscribed (take k cl) @ subscribed (drop (Suc k) cl)"
    by (subst sub) (simp add: remove1_append)
  moreover have "subscribed (cl[k := (?l, False)]) =
      subscribed (take k cl) @ subscribed (drop (Suc k) cl)"
    by (subst upd) (simp add: subscribed_def)
  ultimately show ?thesis
    by simp
qed

text \<open>
  Between dispatches the pending list is the list of the subscribed listeners in
  registration order, as long as no function is subscribed twice at a time.
\<close>

lemma createStore_registration_order:
  assumes "createStore h at cb fresh reducer pre enh = Some (Inr (Store s))"
    and "typeof enh = ''undefined''" and "typeof pre \<noteq> ''function''"
  shows "store_ok s \<and> \<not> isDispatching s \<and> pending s = subscribed (closures s) \<and> pending s = []"
proof -
  obtain r where r: "reducer = VFun r"
    using assms by (cases reducer) (auto simp: createStore_def Let_def typeof_def)
  let ?a = "init_action h at fresh"
  let ?s0 = "\<lparr>currentReducer = r, currentState = pre,
     currentListeners = 0, nextListeners = 0, isDispatching = False,
     arrays = (\<lambda>a. []), allocated = 1, closures = [], invoked = []\<rparr>"
  have plain: "isPlainObject ?a"
    by (simp add: init_action_def object_literal_def Object_prototype_def isPlainObject_def
        typeof_def getPrototypeOf_def)
  have ty: "member h ?a ''type'' = Inr (VStr (INIT at))"
    by (simp add: init_action_def object_literal_def member_def)
  have def: "typeof (VStr (INIT at)) \<noteq> ''undefined''"
    by (simp add: typeof_def)
  have ok: "store_ok ?s0" and idle: "\<not> isDispatching ?s0"
    by (simp_all add: store_ok_def)
  from assms r obtain a' where d: "dispatch h cb ?a ?s0 = Some (Inr a', s)"
    by (auto simp: createStore_def Let_def split: option.splits sum.splits)
  then obtain v where v: "reducer_body cb (currentReducer ?s0) (currentState ?s0) ?a = Inr v"
    using dispatch_checked [OF plain ty def idle, of cb]
    by (cases "reducer_body cb r pre ?a") auto
  from dispatch_reducer_returns [OF ok idle plain ty def v] d obtain x where
    "store_ok s" "\<not> isDispatching s"
    "spec_notify cb v (pending ?s0) (invoked ?s0) (pending ?s0, closures ?s0) =
       (x, invoked s, (pending s, closures s))"
    by auto
  then show ?thesis
    by (simp add: pending_def subscribed_def)
qed

lemma subscribe_registration_order:
  assumes "store_ok s" and "\<not> isDispatching s" and "pending s = subscribed (closures s)"
  shows "\<exists>s'. subscribe (VFun l) s = (Inr (length (closures s)), s') \<and>
     store_ok s' \<and> \<not> isDispatching s' \<and>
     pending s' = pending s @ [l] \<and> pending s' = subscribed (closures s') \<and>
     (distinct (pending s) \<and> l \<notin> set (pending s) \<longrightarrow> distinct (pending s'))"
  using assms
  by (auto simp: subscribe_def Let_def ensure_frame ensure_ok pending_def store_ok_def
      ensureCanMutateNextListeners_def subscribed_def)

lemma unsubscribe_registration_order:
  assumes "store_ok s" and "\<not> isDispatching s" and "pending s = subscribed (closures s)"
    and "distinct (pending s)" and "k < length (closures s)" and "snd (closures s ! k)"
  shows "\<exists>s'. unsubscribe k s = (None, s') \<and>
     store_ok s' \<and> \<not> isDispatching s' \<and>
     pending s' = remove1 (fst (closures s ! k)) (pending s) \<and>
     pending s' = subscribed (closures s') \<and> distinct (pending s')"
proof -
  let ?l = "fst (closures s ! k)"
  have "(?l, True) \<in> set (closures s)"
    using assms(5,6) by (metis nth_mem prod.collapse)
  then have "?l \<in> fst ` set (filter snd (closures s))"
    by (intro image_eqI [of _ _ "(?l, True)"]) simp_all
  then have mem: "?l \<in> set (pending s)"
    using assms(3) by (simp add: subscribed_def)
  have sub: "subscribed ((closures s)[k := (?l, False)]) = remove1 ?l (pending s)"
    using subscribed_unset [OF assms(5,6)] assms(3,4) by simp
  obtain r s' where u: "unsubscribe k s = (r, s')"
    by (cases "unsubscribe k s") auto
  have rc: "run_call (Unsubscribe k) s = (r, s')"
    using u by (simp add: run_call_def)
  from run_call_sim [OF assms(1,2) rc] have f: "frame s s'"
    and sp: "spec_call (Unsubscribe k) (pending s, closures s) = (r, (pending s', closures s'))"
    by auto
  from sp assms(5,6) have "r = None"
    "pending s' = splice1 (pending s) (indexOf (pending s) ?l)"
    "closures s' = (closures s)[k := (?l, False)]"
    by (simp_all add: spec_call_def)
  with mem sub u f assms(2,4) show ?thesis
    by (simp add: splice1_indexOf frame_def)
qed

lemma dispatch_invokes_pending:
  assumes "store_ok s" and "\<not> isDispatching s" and "isPlainObject action"
    and "member h action ''type'' = Inr t" and "typeof t \<noteq> ''undefined''"
    and "reducer_body cb (currentReducer s) (currentState s) action = Inr v"
  shows "\<exists>r s'. dispatch h cb action s = Some (r, s') \<and>
     store_ok s' \<and> \<not> isDispatching s' \<and> currentState s' = v \<and>
     (case r of
        Inr a \<Rightarrow> a = action \<and> invoked s' = invoked s @ pending s
      | Inl e \<Rightarrow> \<exists>n. 0 < n \<and> n \<le> length (pending s) \<and>
          invoked s' = invoked s @ take n (pending s)) \<and>
     spec_notify cb v (pending s) (invoked s) (pending s, closures s) =
       ((case r of Inl e \<Rightarrow> Some e | Inr a \<Rightarrow> None), invoked s', (pending s', closures s'))"
proof -
  from dispatch_reducer_returns [OF assms] obtain x s' where
    d: "dispatch h cb action s = Some ((case x of None \<Rightarrow> Inr action | Some e \<Rightarrow> Inl e), s')"
    and st: "store_ok s'" "\<not> isDispatching s'" "currentState s' = v"
    and sp: "spec_notify cb v (pending s) (invoked s) (pending s, closures s) =
       (x, invoked s', (pending s', closures s'))"
    by blast
  from spec_notify_prefix [OF sp] obtain n where
    n: "n \<le> length (pending s)" "invoked s' = invoked s @ take n (pending s)"
      "x = None \<longrightarrow> n = length (pending s)" "x \<noteq> None \<longrightarrow> 0 < n"
    by blast
  show ?thesis
  proof (cases x)
    case None
    with d st sp n show ?thesis
      by simp
  next
    case (Some e)
    with d st sp n show ?thesis
      by auto
  qed
qed

text \<open>
  Registration order is kept by a notification round in which no listener subscribes a
  function that is subscribed at that moment.
\<close>

lemma subscribed_member:
  assumes "k < length cl" and "snd (cl ! k)"
  shows "fst (cl ! k) \<in> set (subscribed cl)"
proof -
  have "(fst (cl ! k), True) \<in> set cl"
    using assms by (metis nth_mem prod.collapse)
  then have "fst (cl ! k) \<in> fst ` set (filter snd cl)"
    by (intro image_eqI [of _ _ "(fst (cl ! k), True)"]) simp_all
  then show ?thesis
    by (simp add: subscribed_def)
qed

lemma spec_call_registered:
  assumes "fst ps = subscribed (snd ps)" and "distinct (fst ps)"
    and "spec_call c ps = (r, ps')"
    and "case c of Subscribe (VFun l) \<Rightarrow> l \<notin> set (fst ps) | _ \<Rightarrow> True"
  shows "fst ps' = subscribed (snd ps') \<and> distinct (fst ps')"
proof (cases c)
  case GetState
  with assms show ?thesis
    by (auto simp: spec_call_def)
next
  case (Subscribe x)
  with assms show ?thesis
    by (cases x) (auto simp: spec_call_def subscribed_append subscribed_def)
next
  case (Unsubscribe k)
  show ?thesis
  proof (cases "k < length (snd ps) \<and> snd (snd ps ! k)")
    case True
    let ?l = "fst (snd ps ! k)"
    have mem: "?l \<in> set (fst ps)"
      using subscribed_member [of k "snd ps"] True assms(1) by simp
    have "subscribed ((snd ps)[k := (?l, False)]) = remove1 ?l (fst ps)"
      using subscribed_unset [of k "snd ps"] True assms(1,2) by simp
    moreover have "splice1 (fst ps) (indexOf (fst ps) ?l) = remove1 ?l (fst ps)"
      by (rule splice1_indexOf [OF mem])
    ultimately show ?thesis
      using assms(2,3) True Unsubscribe by (auto simp: spec_call_def)
  next
    case False
    with assms Unsubscribe show ?thesis
      by (auto simp: spec_call_def)
  qed
next
  case (Raise e)
  with assms show ?thesis
    by (auto simp: spec_call_def)
qed

lemma spec_body_registered:
  assumes "fst ps = subscribed (snd ps)" and "distinct (fst ps)"
    and "spec_body cs ps = (r, ps')" and "subscribes_new_body cs ps"
  shows "fst ps' = subscribed (snd ps') \<and> distinct (fst ps')"
  using assms
proof (induction cs arbitrary: ps)
  case Nil
  then show ?case by simp
next
  case (Cons c cs)
  obtain r1 ps1 where c: "spec_call c ps = (r1, ps1)"
    by (cases "spec_call c ps") auto
  have new: "case c of Subscribe (VFun l) \<Rightarrow> l \<notin> set (fst ps) | _ \<Rightarrow> True"
    using Cons.prems(4) by simp
  note one = spec_call_registered [OF Cons.prems(1,2) c new]
  show ?case
  proof (cases r1)
    case None
    with c Cons.prems(3,4) have "spec_body cs ps1 = (r, ps')" "subscribes_new_body cs ps1"
      by simp_all
    with Cons.IH [of ps1] one show ?thesis
      by blast
  next
    case (Some e)
    with c Cons.prems(3) one show ?thesis
      by auto
  qed
qed

lemma spec_notify_registered:
  assumes "fst ps = subscribed (snd ps)" and "distinct (fst ps)"
    and "spec_notify cb v ls seen ps = (r, seen', ps')" and "subscribes_new cb v ls ps"
  shows "fst ps' = subscribed (snd ps') \<and> distinct (fst ps')"
  using assms
proof (induction ls arbitrary: seen ps)
  case Nil
  then show ?case by simp
next
  case (Cons l ls)
  obtain r1 ps1 where b: "spec_body (listener_body cb l v) ps = (r1, ps1)"
    by (cases "spec_body (listener_body cb l v) ps") auto
  have new: "subscribes_new_body (listener_body cb l v) ps"
    using Cons.prems(4) by simp
  note one = spec_body_registered [OF Cons.prems(1,2) b new]
  show ?case
  proof (cases r1)
    case None
    with b Cons.prems(3,4) have "spec_notify cb v ls (seen @ [l]) ps1 = (r, seen', ps')"
      "subscribes_new cb v ls ps1"
      by simp_all
    with Cons.IH [of ps1] one show ?thesis
      by blast
  next
    case (Some e)
    with b Cons.prems(3) one show ?thesis
      by auto
  qed
qed

text \<open>A reducer that calls the store: while the flag is set its calls change nothing.\<close>

lemma store_reply_dispatching:
  assumes "isDispatching s"
  shows "store_reply c s =
     (case c of
        GetState \<Rightarrow> Raised ReentrantReadError
      | Subscribe listener \<Rightarrow>
          if typeof listener = ''function'' then Raised ReentrantSubscribeError
          else Raised InvalidListenerError
      | Unsubscribe k \<Rightarrow>
          if k < length (closures s) \<and> snd (closures s ! k) then Raised ReentrantUnsubscribeError
          else Returned
      | Raise e \<Rightarrow> Raised e, s)"
proof (cases c)
  case (Subscribe x)
  with assms show ?thesis
    by (cases x) (simp_all add: store_reply_def subscribe_def typeof_def)
qed (use assms in \<open>auto simp: store_reply_def getState_def unsubscribe_def Let_def\<close>)

lemma run_program_dispatching:
  assumes "isDispatching s"
  shows "snd (run_program p s) = s"
proof (induction p)
  case (Done r)
  then show ?case by simp
next
  case (Call c k)
  obtain a where "store_reply c s = (a, s)"
    using store_reply_dispatching [OF assms, of c] by simp
  with Call show ?case
    by (simp add: range_eqI)
qed

lemma dispatch_reentrant_checked:
  assumes "isPlainObject action" and "member h action ''type'' = Inr t"
    and "typeof t \<noteq> ''undefined''" and "\<not> isDispatching s"
  shows "dispatch_reentrant h reducer_program cb action s =
     (case fst (run_program (reducer_program (currentReducer s) (currentState s) action)
                  (s\<lparr>isDispatching := True\<rparr>)) of
        Inl e \<Rightarrow> Some (Inl e, s)
      | Inr v \<Rightarrow>
          (case dispatch_loop cb (nextListeners s) 0
                  (s\<lparr>currentState := v, currentListeners := nextListeners s\<rparr>) of
             None \<Rightarrow> None
           | Some (Some e, s') \<Rightarrow> Some (Inl e, s')
           | Some (None, s') \<Rightarrow> Some (Inr action, s')))"
proof -
  let ?s1 = "s\<lparr>isDispatching := True\<rparr>"
  let ?p = "reducer_program (currentReducer s) (currentState s) action"
  have run: "run_program ?p ?s1 = (fst (run_program ?p ?s1), ?s1)"
    using run_program_dispatching [of ?s1 ?p] by (simp add: prod_eq_iff)
  have idle: "s\<lparr>isDispatching := False\<rparr> = s"
    using assms(4) by simp
  have upd: "s\<lparr>currentState := x, isDispatching := False, currentListeners := n\<rparr> =
      s\<lparr>currentState := x, currentListeners := n\<rparr>" for x n
    using assms(4) by (cases s) simp
  have reset: "?s1\<lparr>isDispatching := False\<rparr> = s"
    using assms(4) by (cases s) simp
  show ?thesis
    using assms
    apply (simp add: dispatch_reentrant_def Let_def)
    apply (subst run)
    apply (simp add: reset upd split: sum.splits)
    done
qed

text \<open>\<open>dispatch\<close> is \<open>dispatch_reentrant\<close> for the reducers that make no call.\<close>

lemma dispatch_reentrant_pure:
  "dispatch h cb action s =
     dispatch_reentrant h (\<lambda>f state a. Done (reducer_body cb f state a)) cb action s"
  by (simp add: dispatch_def dispatch_reentrant_def Let_def split: sum.splits)

lemma dispatch_reentrant_returns:
  assumes "store_ok s" and "\<not> isDispatching s"
  shows "\<exists>r s'. dispatch_reentrant h reducer_program cb action s = Some (r, s') \<and>
     \<not> isDispatching s'"
proof (cases "isPlainObject action \<and>
    (\<exists>t. member h action ''type'' = Inr t \<and> typeof t \<noteq> ''undefined'')")
  case True
  then obtain t where t: "member h action ''type'' = Inr t" "typeof t \<noteq> ''undefined''"
    and plain: "isPlainObject action"
    by blast
  note eq = dispatch_reentrant_checked [OF plain t assms(2), of reducer_program cb]
  show ?thesis
  proof (cases "fst (run_program (reducer_program (currentReducer s) (currentState s) action)
                  (s\<lparr>isDispatching := True\<rparr>))")
    case (Inl e)
    with eq assms(2) show ?thesis
      by simp
  next
    case (Inr v)
    let ?s3 = "s\<lparr>currentState := v, currentListeners := nextListeners s\<rparr>"
    have ok3: "store_ok ?s3" and idle3: "\<not> isDispatching ?s3"
      using assms by (simp_all add: store_ok_def)
    have le: "0 \<le> length (arrays ?s3 (currentListeners ?s3))"
      by simp
    from dispatch_loop_sim [OF ok3 idle3 le, of cb] obtain r s' where
      "dispatch_loop cb (nextListeners s) 0 ?s3 = Some (r, s')" "\<not> isDispatching s'"
      by auto
    with eq Inr show ?thesis
      by (cases r) simp_all
  qed
next
  case False
  then show ?thesis
    using assms(2) by (auto simp: dispatch_reentrant_def split: sum.splits)
qed

subsection \<open>Listeners that do not dispatch\<close>

text \<open>
  For listeners that make plain calls only, \<open>dispatch_nested\<close> is \<open>dispatch\<close>: what it
  returns within its bound is what \<open>dispatch\<close> returns, and what \<open>dispatch\<close> returns it
  returns when the bound is large enough.
\<close>

lemma steps_nested_plain:
  "steps_nested n h cb steps (map Plain cs) s = Some r \<Longrightarrow> run_body cs s = r"
proof (induction n arbitrary: cs s)
  case 0
  then show ?case
    by simp
next
  case (Suc n)
  show ?case
  proof (cases cs)
    case Nil
    with Suc.prems show ?thesis
      by simp
  next
    case (Cons c cs')
    obtain e s' where rc: "run_call c s = (e, s')"
      by (cases "run_call c s")
    show ?thesis
    proof (cases e)
      case None
      with Suc.prems Cons rc have "steps_nested n h cb steps (map Plain cs') s' = Some r"
        by simp
      from Suc.IH [OF this] Cons rc None show ?thesis
        by simp
    next
      case (Some x)
      with Suc.prems Cons rc show ?thesis
        by auto
    qed
  qed
qed

lemma loop_nested_plain:
  "loop_nested n h cb (\<lambda>l v. map Plain (listener_body cb l v)) listeners i s = Some r \<Longrightarrow>
    dispatch_loop cb listeners i s = Some r"
proof (induction n arbitrary: i s)
  case 0
  then show ?case
    by simp
next
  case (Suc n)
  let ?steps = "\<lambda>l v. map Plain (listener_body cb l v)"
  show ?case
  proof (cases "i < length (arrays s listeners)")
    case False
    with Suc.prems show ?thesis
      by (simp add: dispatch_loop.simps)
  next
    case True
    let ?l = "arrays s listeners ! i"
    let ?s = "s\<lparr>invoked := invoked s @ [?l]\<rparr>"
    from Suc.prems True obtain e s' where
      st: "steps_nested n h cb ?steps (map Plain (listener_body cb ?l (currentState s))) ?s =
        Some (e, s')"
      by (auto split: option.splits)
    from steps_nested_plain [OF st] have cl: "call_listener cb ?l s = (e, s')"
      by (simp add: call_listener_def)
    show ?thesis
    proof (cases e)
      case None
      with Suc.prems True st have "loop_nested n h cb ?steps listeners (Suc i) s' = Some r"
        by simp
      from Suc.IH [OF this] True cl None show ?thesis
        by (subst dispatch_loop.simps) simp
    next
      case (Some x)
      with Suc.prems True st cl show ?thesis
        by (subst dispatch_loop.simps) auto
    qed
  qed
qed

lemma dispatch_nested_plain:
  assumes "dispatch_nested n h cb (\<lambda>l v. map Plain (listener_body cb l v)) action s = Some r"
  shows "dispatch h cb action s = Some r"
proof (cases n)
  case 0
  with assms show ?thesis
    by simp
next
  case (Suc m)
  let ?steps = "\<lambda>l v. map Plain (listener_body cb l v)"
  show ?thesis
  proof (cases "isPlainObject action \<and>
      (\<exists>t. member h action ''type'' = Inr t \<and> typeof t \<noteq> ''undefined'') \<and> \<not> isDispatching s \<and>
      (\<exists>v. reducer_body cb (currentReducer s) (currentState s) action = Inr v)")
    case False
    with assms Suc show ?thesis
      by (auto simp: dispatch_def Let_def split: sum.splits if_splits)
  next
    case True
    then obtain t v where t: "isPlainObject action" "member h action ''type'' = Inr t"
      "typeof t \<noteq> ''undefined''" "\<not> isDispatching s"
      and v: "reducer_body cb (currentReducer s) (currentState s) action = Inr v"
      by blast
    let ?s3 = "s\<lparr>isDispatching := True, currentState := v, isDispatching := False,
      currentListeners := nextListeners s\<rparr>"
    from assms Suc t v obtain q where
      q: "loop_nested m h cb ?steps (nextListeners s) 0 ?s3 = Some q"
      by (auto simp: Let_def split: option.splits)
    from loop_nested_plain [OF q] assms Suc t v q show ?thesis
      by (auto simp: dispatch_def Let_def split: option.splits sum.splits)
  qed
qed

lemma steps_nested_fuel:
  "length cs < n \<Longrightarrow> steps_nested n h cb steps (map Plain cs) s = Some (run_body cs s)"
proof (induction cs arbitrary: n s)
  case Nil
  then show ?case
    by (cases n) simp_all
next
  case (Cons c cs)
  then obtain m where m: "n = Suc m" "length cs < m"
    by (cases n) simp_all
  from Cons.IH [OF m(2)] m(1) show ?case
    by (auto split: prod.splits option.splits)
qed

lemma loop_nested_fuel:
  assumes "dispatch_loop cb listeners i s = Some r"
  shows "\<exists>n. \<forall>m\<ge>n. loop_nested m h cb (\<lambda>l v. map Plain (listener_body cb l v)) listeners i s =
    Some r"
  using assms
proof (induction rule: dispatch_loop.raw_induct)
  case (1 loop cb listeners i s r)
  let ?steps = "\<lambda>l v. map Plain (listener_body cb l v)"
  show ?case
  proof (cases "i < length (arrays s listeners)")
    case False
    with 1(2) have "r = (None, s)"
      by simp
    with False have "\<forall>m\<ge>1. loop_nested m h cb ?steps listeners i s = Some r"
      by (auto simp: Suc_le_eq gr0_conv_Suc)
    then show ?thesis
      by blast
  next
    case True
    let ?l = "arrays s listeners ! i"
    let ?cs = "listener_body cb ?l (currentState s)"
    let ?s = "s\<lparr>invoked := invoked s @ [?l]\<rparr>"
    obtain e s' where cl: "call_listener cb ?l s = (e, s')"
      by (cases "call_listener cb ?l s")
    then have rb: "run_body ?cs ?s = (e, s')"
      by (simp add: call_listener_def)
    have st: "\<And>k. length ?cs < k \<Longrightarrow> steps_nested k h cb ?steps (map Plain ?cs) ?s = Some (e, s')"
      using steps_nested_fuel [of ?cs _ h cb ?steps ?s] rb by simp
    show ?thesis
    proof (cases e)
      case (Some x)
      with 1(2) True cl have r: "r = (Some x, s')"
        by simp
      have "\<forall>m\<ge>length ?cs + 2. loop_nested m h cb ?steps listeners i s = Some r"
      proof (intro allI impI)
        fix m
        assume "length ?cs + 2 \<le> m"
        then obtain k where k: "m = Suc k" "length ?cs < k"
          by (cases m) simp_all
        from st [OF k(2)] k(1) True Some r show "loop_nested m h cb ?steps listeners i s = Some r"
          by simp
      qed
      then show ?thesis
        by blast
    next
      case None
      with 1(2) True cl have "loop cb listeners (Suc i) s' = Some r"
        by simp
      moreover from 1(3) True cl None have "dispatch_loop cb listeners (Suc i) s' = Some r"
        by (subst (asm) dispatch_loop.simps) simp
      ultimately obtain n where
        n: "\<forall>m\<ge>n. loop_nested m h cb ?steps listeners (Suc i) s' = Some r"
        using 1(1) by blast
      have "\<forall>m\<ge>max (length ?cs + 2) (Suc n). loop_nested m h cb ?steps listeners i s = Some r"
      proof (intro allI impI)
        fix m
        assume "max (length ?cs + 2) (Suc n) \<le> m"
        then obtain k where k: "m = Suc k" "length ?cs < k" "n \<le> k"
          by (cases m) simp_all
        from st [OF k(2)] n k True None show "loop_nested m h cb ?steps listeners i s = Some r"
          by simp
      qed
      then show ?thesis
        by blast
    qed
  qed
qed (rule assms)

lemma dispatch_nested_fuel:
  assumes "dispatch h cb action s = Some r"
  shows "\<exists>n. dispatch_nested n h cb (\<lambda>l v. map Plain (listener_body cb l v)) action s = Some r"
proof (cases "isPlainObject action \<and>
      (\<exists>t. member h action ''type'' = Inr t \<and> typeof t \<noteq> ''undefined'') \<and> \<not> isDispatching s \<and>
      (\<exists>v. reducer_body cb (currentReducer s) (currentState s) action = Inr v)")
  case False
  with assms have "dispatch_nested (Suc 0) h cb (\<lambda>l v. map Plain (listener_body cb l v)) action s =
    Some r"
    by (auto simp: dispatch_def Let_def split: sum.splits if_splits)
  then show ?thesis
    by blast
next
  case True
  let ?steps = "\<lambda>l v. map Plain (listener_body cb l v)"
  from True obtain t v where t: "isPlainObject action" "member h action ''type'' = Inr t"
    "typeof t \<noteq> ''undefined''" "\<not> isDispatching s"
    and v: "reducer_body cb (currentReducer s) (currentState s) action = Inr v"
    by blast
  let ?s3 = "s\<lparr>isDispatching := True, currentState := v, isDispatching := False,
    currentListeners := nextListeners s\<rparr>"
  from assms t v obtain q where q: "dispatch_loop cb (nextListeners s) 0 ?s3 = Some q"
    by (auto simp: dispatch_def Let_def split: option.splits)
  from loop_nested_fuel [OF q, of h] obtain n where
    "loop_nested n h cb ?steps (nextListeners s) 0 ?s3 = Some q"
    by blast
  with assms t v q have "dispatch_nested (Suc n) h cb ?steps action s = Some r"
    by (auto simp: dispatch_def Let_def split: option.splits sum.splits)
  then show ?thesis
    by blast
qed

section \<open>The store: claims\<close>

lemma INC_plain: "isPlainObject INC" "member h INC ''type'' = Inr (VStr ''INC'')"
  by (simp_all add: INC_def object_literal_def Object_prototype_def isPlainObject_def typeof_def
      getPrototypeOf_def member_def)

lemma example_store_simps:
  "store_ok (example_store r ls)" "\<not> isDispatching (example_store r ls)"
  "currentReducer (example_store r ls) = r" "currentState (example_store r ls) = VNum 0"
  "pending (example_store r ls) = ls" "invoked (example_store r ls) = []"
  "closures (example_store r ls) = map (\<lambda>l. (l, True)) ls"
  by (simp_all add: example_store_def store_ok_def pending_def)

lemma example_reducers:
  "reducer_body example_callbacks 0 (VNum n) INC = Inr (VNum (n + 1))"
  "reducer_body example_callbacks 5 v a = Inl (Error ''reducer failed'')"
  by (simp_all add: example_callbacks_def example_renv_def counter_def failing_def INC_plain)

text \<open>
  C6.  When the reducer raises during the dispatch of a valid action on an idle store, the
  error reaches the caller and the store is exactly what it was: the same state, no
  listener invoked, idle again, so that the calls that follow behave as before.
\<close>

theorem dispatch_reducer_raises:
  assumes "\<not> isDispatching s" and "isPlainObject action"
    and "member h action ''type'' = Inr t" and "typeof t \<noteq> ''undefined''"
    and "reducer_body cb (currentReducer s) (currentState s) action = Inl e"
  shows "\<exists>s'. dispatch h cb action s = Some (Inl e, s') \<and>
     currentState s' = currentState s \<and> invoked s' = invoked s \<and> \<not> isDispatching s' \<and>
     s' = s \<and> getState s' = Inr (currentState s)"
  using assms dispatch_checked [OF assms(2,3,4,1), of cb]
  by (simp add: getState_def)

theorem dispatch_reducer_raises_witness:
  "\<not> isDispatching (example_store 5 [1, 2]) \<and> isPlainObject INC \<and>
   member example_host INC ''type'' = Inr (VStr ''INC'') \<and>
   typeof (VStr ''INC'') \<noteq> ''undefined'' \<and>
   reducer_body example_callbacks 5 (VNum 0) INC = Inl (Error ''reducer failed'') \<and>
   dispatch example_host example_callbacks INC (example_store 5 [1, 2]) =
     Some (Inl (Error ''reducer failed''), example_store 5 [1, 2]) \<and>
   getState (example_store 5 [1, 2]) = Inr (VNum 0) \<and>
   invoked (example_store 5 [1, 2]) = []"
  using dispatch_reducer_raises [where s = "example_store 5 [1, 2]" and action = INC
      and h = example_host and t = "VStr ''INC''" and cb = example_callbacks
      and e = "Error ''reducer failed''"]
  by (simp add: INC_plain example_store_simps example_reducers typeof_def)

text \<open>
  C7, as the code has it.  Let a valid action be dispatched on an idle store, and let the
  reducer, while it runs, call the store; \<open>k\<close> is how the reducer goes on after the call.
  A call of \<^verbatim>\<open>getState\<close>, a call of \<^verbatim>\<open>subscribe\<close> with a function and the call of an
  \<^verbatim>\<open>unsubscribe\<close> closure that has not been called before raise their re-entrancy errors: the
  dispatch goes on as the reducer does with that error.  A call of \<^verbatim>\<open>subscribe\<close> with a
  value that is no function raises \<^verbatim>\<open>Expected the listener to be a function.\<close> instead.
  A reducer that lets an error escape makes the dispatch raise it and leaves the store as
  it was.  On the idle store \<^verbatim>\<open>getState\<close>, \<^verbatim>\<open>subscribe\<close> with a function and \<^verbatim>\<open>unsubscribe\<close>
  succeed, and the store is idle again when the dispatch has returned.
\<close>

theorem reducer_calls_raise:
  assumes "store_ok s" and "\<not> isDispatching s" and "isPlainObject action"
    and "member h action ''type'' = Inr t" and "typeof t \<noteq> ''undefined''"
    and "reducer_program (currentReducer s) (currentState s) action = Call c k"
  shows "(c = GetState \<longrightarrow>
       dispatch_reentrant h reducer_program cb action s =
       dispatch_reentrant h (\<lambda>f state a. k (Raised (Error (
              ''You may not call store.getState() while the reducer is executing. '' @
              ''The reducer has already received the state as an argument. '' @
              ''Pass it down from the top reducer instead of reading it from the store.'')))) cb action s) \<and>
     (\<forall>l. c = Subscribe (VFun l) \<longrightarrow>
       dispatch_reentrant h reducer_program cb action s =
       dispatch_reentrant h (\<lambda>f state a. k (Raised (Error (
              ''You may not call store.subscribe() while the reducer is executing. '' @
              ''If you would like to be notified after the store has been updated, subscribe from a '' @
              ''component and invoke store.getState() in the callback to access the latest state. '' @
              ''See https://redux.js.org/api-reference/store#subscribe(listener) for more details.'')))) cb action s) \<and>
     (\<forall>x. c = Subscribe x \<and> typeof x \<noteq> ''function'' \<longrightarrow>
       dispatch_reentrant h reducer_program cb action s =
       dispatch_reentrant h (\<lambda>f state a. k (Raised (Error
              ''Expected the listener to be a function.''))) cb action s) \<and>
     (\<forall>j. c = Unsubscribe j \<and> j < length (closures s) \<and> snd (closures s ! j) \<longrightarrow>
       dispatch_reentrant h reducer_program cb action s =
       dispatch_reentrant h (\<lambda>f state a. k (Raised (Error (
              ''You may not unsubscribe from a store listener while the reducer is executing. '' @
              ''See https://redux.js.org/api-reference/store#subscribe(listener) for more details.'')))) cb action s) \<and>
     (\<forall>e. dispatch_reentrant h (\<lambda>f state a. Done (Inl e)) cb action s = Some (Inl e, s)) \<and>
     getState s = Inr (currentState s) \<and>
     (\<forall>l. \<exists>s'. subscribe (VFun l) s = (Inr (length (closures s)), s') \<and>
        pending s' = pending s @ [l]) \<and>
     (\<forall>j. \<exists>s'. unsubscribe j s = (None, s')) \<and>
     (\<exists>r s'. dispatch_reentrant h reducer_program cb action s = Some (r, s') \<and>
        \<not> isDispatching s')"
proof -
  let ?s1 = "s\<lparr>isDispatching := True\<rparr>"
  note eq = dispatch_reentrant_checked [OF assms(3,4,5,2), of _ cb]
  have flag: "isDispatching ?s1"
    by simp
  have run: "fst (run_program (Call c k) ?s1) =
      fst (run_program (k (fst (store_reply c ?s1))) ?s1)"
    using store_reply_dispatching [OF flag, of c] by simp
  have step: "dispatch_reentrant h reducer_program cb action s =
      dispatch_reentrant h (\<lambda>f state a. k (fst (store_reply c ?s1))) cb action s"
    unfolding eq assms(6) run by simp
  have get: "fst (store_reply GetState ?s1) = Raised (Error (
              ''You may not call store.getState() while the reducer is executing. '' @
              ''The reducer has already received the state as an argument. '' @
              ''Pass it down from the top reducer instead of reading it from the store.''))"
    by (simp add: store_reply_dispatching ReentrantReadError_def)
  have sub: "fst (store_reply (Subscribe (VFun l)) ?s1) = Raised (Error (
              ''You may not call store.subscribe() while the reducer is executing. '' @
              ''If you would like to be notified after the store has been updated, subscribe from a '' @
              ''component and invoke store.getState() in the callback to access the latest state. '' @
              ''See https://redux.js.org/api-reference/store#subscribe(listener) for more details.''))" for l
    by (simp add: store_reply_dispatching ReentrantSubscribeError_def typeof_def)
  have inv: "fst (store_reply (Subscribe x) ?s1) =
      Raised (Error ''Expected the listener to be a function.'')"
    if "typeof x \<noteq> ''function''" for x
    using that by (simp add: store_reply_dispatching InvalidListenerError_def)
  have uns: "fst (store_reply (Unsubscribe j) ?s1) = Raised (Error (
              ''You may not unsubscribe from a store listener while the reducer is executing. '' @
              ''See https://redux.js.org/api-reference/store#subscribe(listener) for more details.''))"
    if "j < length (closures s)" "snd (closures s ! j)" for j
    using that by (simp add: store_reply_dispatching ReentrantUnsubscribeError_def)
  have raise: "dispatch_reentrant h (\<lambda>f state a. Done (Inl e)) cb action s = Some (Inl e, s)" for e
    unfolding eq by simp
  have idle: "getState s = Inr (currentState s)"
    using assms(2) by (simp add: getState_def)
  have subscribes: "\<exists>s'. subscribe (VFun l) s = (Inr (length (closures s)), s') \<and>
      pending s' = pending s @ [l]" for l
    using assms(1,2)
    by (auto simp: subscribe_def Let_def ensure_frame ensure_ok pending_def store_ok_def
        ensureCanMutateNextListeners_def)
  have unsubscribes: "\<exists>s'. unsubscribe j s = (None, s')" for j
    using assms(2) by (simp add: unsubscribe_def Let_def)
  from step get sub inv uns raise idle subscribes unsubscribes
    dispatch_reentrant_returns [OF assms(1,2), of h reducer_program cb action]
  show ?thesis
    by (simp del: append.simps)
qed

theorem reducer_calls_raise_witness:
  "store_ok (example_store 0 [1, 2]) \<and> \<not> isDispatching (example_store 0 [1, 2]) \<and>
   isPlainObject INC \<and> member example_host INC ''type'' = Inr (VStr ''INC'') \<and>
   typeof (VStr ''INC'') \<noteq> ''undefined'' \<and>
   reading_reducer 0 (VNum 0) INC = Call GetState (uncaught (VNum 0)) \<and>
   dispatch_reentrant example_host reading_reducer example_callbacks INC (example_store 0 [1, 2]) =
     Some (Inl (Error (
              ''You may not call store.getState() while the reducer is executing. '' @
              ''The reducer has already received the state as an argument. '' @
              ''Pass it down from the top reducer instead of reading it from the store.'')), example_store 0 [1, 2]) \<and>
   dispatch_reentrant example_host (subscribing_reducer (VFun 3)) example_callbacks INC
       (example_store 0 [1, 2]) =
     Some (Inl (Error (
              ''You may not call store.subscribe() while the reducer is executing. '' @
              ''If you would like to be notified after the store has been updated, subscribe from a '' @
              ''component and invoke store.getState() in the callback to access the latest state. '' @
              ''See https://redux.js.org/api-reference/store#subscribe(listener) for more details.'')), example_store 0 [1, 2]) \<and>
   1 < length (closures (example_store 0 [1, 2])) \<and> snd (closures (example_store 0 [1, 2]) ! 1) \<and>
   dispatch_reentrant example_host (unsubscribing_reducer 1) example_callbacks INC
       (example_store 0 [1, 2]) =
     Some (Inl (Error (
              ''You may not unsubscribe from a store listener while the reducer is executing. '' @
              ''See https://redux.js.org/api-reference/store#subscribe(listener) for more details.'')), example_store 0 [1, 2]) \<and>
   getState (example_store 0 [1, 2]) = Inr (VNum 0) \<and>
   fst (subscribe (VFun 3) (example_store 0 [1, 2])) = Inr 2 \<and>
   fst (unsubscribe 1 (example_store 0 [1, 2])) = None"
proof -
  let ?s = "example_store 0 [1, 2]"
  have h1: "store_ok ?s" and h2: "\<not> isDispatching ?s"
    by (simp_all add: example_store_simps)
  have h3: "isPlainObject INC" and h4: "member example_host INC ''type'' = Inr (VStr ''INC'')"
    and h5: "typeof (VStr ''INC'') \<noteq> ''undefined''"
    by (simp_all add: INC_plain typeof_def)
  have p1: "reading_reducer (currentReducer ?s) (currentState ?s) INC =
      Call GetState (uncaught (VNum 0))"
    and p2: "subscribing_reducer (VFun 3) (currentReducer ?s) (currentState ?s) INC =
      Call (Subscribe (VFun 3)) (uncaught (VNum 0))"
    and p3: "unsubscribing_reducer 1 (currentReducer ?s) (currentState ?s) INC =
      Call (Unsubscribe 1) (uncaught (VNum 0))"
    by (simp_all add: reading_reducer_def subscribing_reducer_def unsubscribing_reducer_def
        example_store_simps)
  have u: "uncaught v (Raised e) = Done (Inl e)" for v e
    by (simp add: uncaught_def)
  have cl: "1 < length (closures ?s)" "snd (closures ?s ! 1)"
    by (simp_all add: example_store_simps)
  note t1 = reducer_calls_raise [where s = ?s and action = INC and h = example_host
      and t = "VStr ''INC''" and reducer_program = reading_reducer and c = GetState
      and k = "uncaught (VNum 0)" and cb = example_callbacks, OF h1 h2 h3 h4 h5 p1]
  note t2 = reducer_calls_raise [where s = ?s and action = INC and h = example_host
      and t = "VStr ''INC''" and reducer_program = "subscribing_reducer (VFun 3)"
      and c = "Subscribe (VFun 3)" and k = "uncaught (VNum 0)" and cb = example_callbacks,
      OF h1 h2 h3 h4 h5 p2]
  note t3 = reducer_calls_raise [where s = ?s and action = INC and h = example_host
      and t = "VStr ''INC''" and reducer_program = "unsubscribing_reducer 1"
      and c = "Unsubscribe 1" and k = "uncaught (VNum 0)" and cb = example_callbacks,
      OF h1 h2 h3 h4 h5 p3]
  from t1 have one: "dispatch_reentrant example_host reading_reducer example_callbacks INC ?s =
     Some (Inl (Error (
              ''You may not call store.getState() while the reducer is executing. '' @
              ''The reducer has already received the state as an argument. '' @
              ''Pass it down from the top reducer instead of reading it from the store.'')), ?s)"
    by (simp add: u del: append.simps)
  from t2 have two: "dispatch_reentrant example_host (subscribing_reducer (VFun 3))
       example_callbacks INC ?s =
     Some (Inl (Error (
              ''You may not call store.subscribe() while the reducer is executing. '' @
              ''If you would like to be notified after the store has been updated, subscribe from a '' @
              ''component and invoke store.getState() in the callback to access the latest state. '' @
              ''See https://redux.js.org/api-reference/store#subscribe(listener) for more details.'')), ?s)"
    by (simp add: u del: append.simps)
  from t3 cl have three: "dispatch_reentrant example_host (unsubscribing_reducer 1)
       example_callbacks INC ?s =
     Some (Inl (Error (
              ''You may not unsubscribe from a store listener while the reducer is executing. '' @
              ''See https://redux.js.org/api-reference/store#subscribe(listener) for more details.'')), ?s)"
    by (simp add: u del: append.simps)
  note rest = t1 [THEN conjunct2, THEN conjunct2, THEN conjunct2, THEN conjunct2, THEN conjunct2]
  note i1 = rest [THEN conjunct1]
  note i2 = rest [THEN conjunct2, THEN conjunct1]
  note i3 = rest [THEN conjunct2, THEN conjunct2, THEN conjunct1]
  from i2 obtain s2 where "subscribe (VFun 3) ?s = (Inr (length (closures ?s)), s2)"
    by blast
  moreover from i3 obtain s3 where "unsubscribe 1 ?s = (None, s3)"
    by blast
  ultimately have idle: "getState ?s = Inr (VNum 0)" "fst (subscribe (VFun 3) ?s) = Inr 2"
    "fst (unsubscribe 1 ?s) = None"
    using i1 by (simp_all add: example_store_simps)
  from h1 h2 h3 h4 h5 one two three cl idle show ?thesis
    by (simp add: reading_reducer_def del: append.simps)
qed

text \<open>
  The claim as stated fails: a reducer that calls \<^verbatim>\<open>store.subscribe(3)\<close> while it runs gets
  the error of the listener's type, which is no re-entrancy error; \<^verbatim>\<open>subscribe\<close> checks
  the listener before the flag.
\<close>

theorem reducer_calls_counterexample:
  "isPlainObject INC \<and> \<not> isDispatching (example_store 0 [1, 2]) \<and>
   subscribing_reducer (VNum 3) 0 (VNum 0) INC = Call (Subscribe (VNum 3)) (uncaught (VNum 0)) \<and>
   dispatch_reentrant example_host (subscribing_reducer (VNum 3)) example_callbacks INC
       (example_store 0 [1, 2]) =
     Some (Inl (Error ''Expected the listener to be a function.''), example_store 0 [1, 2])"
  using dispatch_reentrant_checked [where action = INC and h = example_host and t = "VStr ''INC''"
      and s = "example_store 0 [1, 2]" and cb = example_callbacks
      and reducer_program = "subscribing_reducer (VNum 3)"]
  by (simp add: INC_plain example_store_simps typeof_def subscribing_reducer_def store_reply_def
      subscribe_def uncaught_def InvalidListenerError_def)



text \<open>
  C5, as the code has it.  \<^verbatim>\<open>dispatch\<close> raises, and leaves the store as it is, when the
  action is not a plain object, when its \<^verbatim>\<open>type\<close> is \<^verbatim>\<open>undefined\<close>, or when the store is
  dispatching.  An error of the reducer or of a listener reaches the caller as well: only
  when neither raises does \<^verbatim>\<open>dispatch\<close> raise exactly in these three cases.  Whenever it
  raises nothing, it returns the action it was given.
\<close>

theorem dispatch_raises_iff:
  assumes "store_ok s"
  shows "\<exists>r s'. dispatch h cb action s = Some (r, s') \<and>
     (\<not> isPlainObject action \<or>
      (\<exists>t. member h action ''type'' = Inr t \<and> typeof t = ''undefined'') \<or>
      isDispatching s \<longrightarrow> (\<exists>e. r = Inl e) \<and> s' = s) \<and>
     ((\<forall>e. reducer_body cb (currentReducer s) (currentState s) action \<noteq> Inl e) \<and>
      (\<forall>l v. quiet (listener_body cb l v)) \<longrightarrow>
        ((\<exists>e. r = Inl e) \<longleftrightarrow>
           (\<not> isPlainObject action \<or>
            (\<exists>t. member h action ''type'' = Inr t \<and> typeof t = ''undefined'') \<or>
            isDispatching s))) \<and>
     ((\<forall>e. r \<noteq> Inl e) \<longrightarrow> r = Inr action)"
proof (cases "isPlainObject action")
  case False
  then show ?thesis
    by (simp add: dispatch_def)
next
  case True
  then obtain ob where ob: "action = VObj ob"
    by (cases action) (simp_all add: isPlainObject_def typeof_def)
  then obtain t where t: "member h action ''type'' = Inr t"
    by (simp add: member_def)
  show ?thesis
  proof (cases "typeof t = ''undefined'' \<or> isDispatching s")
    case True
    with \<open>isPlainObject action\<close> t show ?thesis
      by (auto simp: dispatch_def)
  next
    case False
    then have def: "typeof t \<noteq> ''undefined''" and idle: "\<not> isDispatching s"
      by simp_all
    show ?thesis
    proof (cases "reducer_body cb (currentReducer s) (currentState s) action")
      case (Inl e)
      with dispatch_checked [OF True t def idle, of cb] True t def idle show ?thesis
        by auto
    next
      case (Inr v)
      from dispatch_reducer_returns [OF assms idle True t def Inr] obtain x s' where
        d: "dispatch h cb action s =
            Some ((case x of None \<Rightarrow> Inr action | Some e \<Rightarrow> Inl e), s')"
        and sp: "spec_notify cb v (pending s) (invoked s) (pending s, closures s) =
           (x, invoked s', (pending s', closures s'))"
        by blast
      have q: "(\<forall>l v. quiet (listener_body cb l v)) \<longrightarrow> x = None"
      proof
        assume "\<forall>l v. quiet (listener_body cb l v)"
        then have "fst (spec_notify cb v (pending s) (invoked s) (pending s, closures s)) = None"
          by (simp add: spec_notify_quiet)
        with sp show "x = None"
          by simp
      qed
      show ?thesis
      proof (cases x)
        case None
        with d True t def idle show ?thesis
          by simp
      next
        case (Some e)
        with d q True t def idle show ?thesis
          by auto
      qed
    qed
  qed
qed

theorem dispatch_raises_iff_witness:
  "store_ok (example_store 0 [2, 3]) \<and>
   reducer_body example_callbacks 0 (VNum 0) INC = Inr (VNum 1) \<and>
   isPlainObject INC \<and> member example_host INC ''type'' = Inr (VStr ''INC'') \<and>
   \<not> isDispatching (example_store 0 [2, 3]) \<and>
   map_option fst (dispatch example_host (example_callbacks\<lparr>listener_body := \<lambda>l v. []\<rparr>) INC
      (example_store 0 [2, 3])) = Some (Inr INC) \<and>
   \<not> isPlainObject (VNum 3) \<and>
   dispatch example_host example_callbacks (VNum 3) (example_store 0 [2, 3]) =
     Some (Inl InvalidActionError, example_store 0 [2, 3])"
proof -
  let ?cb = "example_callbacks\<lparr>listener_body := \<lambda>l v. []\<rparr>"
  let ?s = "example_store 0 [2, 3]"
  have ok: "store_ok ?s"
    by (simp add: example_store_simps)
  have hyp: "(\<forall>e. reducer_body ?cb (currentReducer ?s) (currentState ?s) INC \<noteq> Inl e) \<and>
      (\<forall>l v. quiet (listener_body ?cb l v))"
    by (simp add: example_store_simps example_callbacks_def example_renv_def counter_def
        INC_plain quiet_def)
  have valid: "\<not> (\<not> isPlainObject INC \<or>
      (\<exists>t. member example_host INC ''type'' = Inr t \<and> typeof t = ''undefined'') \<or>
      isDispatching ?s)"
    by (simp add: INC_plain example_store_simps typeof_def)
  from dispatch_raises_iff [OF ok, of example_host ?cb INC] hyp valid
  have one: "map_option fst (dispatch example_host ?cb INC ?s) = Some (Inr INC)"
    by auto
  have prim: "\<not> isPlainObject (VNum 3)"
    by (simp add: isPlainObject_def typeof_def)
  from dispatch_raises_iff [OF ok, of example_host example_callbacks "VNum 3"] prim
  have two: "dispatch example_host example_callbacks (VNum 3) ?s = Some (Inl InvalidActionError, ?s)"
    by (auto simp: dispatch_def)
  from ok one two prim show ?thesis
    by (simp add: example_store_simps example_reducers INC_plain)
qed

text \<open>
  The claim as stated fails: on the idle store whose reducer raises, the dispatch of the
  plain action \<^verbatim>\<open>{type: 'INC'}\<close> raises the reducer's error.
\<close>

theorem dispatch_raises_counterexample:
  "isPlainObject INC \<and>
   member example_host INC ''type'' = Inr (VStr ''INC'') \<and>
   typeof (VStr ''INC'') \<noteq> ''undefined'' \<and>
   \<not> isDispatching (example_store 5 [1, 2]) \<and>
   dispatch example_host example_callbacks INC (example_store 5 [1, 2]) =
     Some (Inl (Error ''reducer failed''), example_store 5 [1, 2])"
  using dispatch_checked [where action = INC and h = example_host and t = "VStr ''INC''"
      and s = "example_store 5 [1, 2]" and cb = example_callbacks]
  by (simp add: INC_plain example_store_simps example_reducers typeof_def)

text \<open>
  C2, as the code has it.  The listeners here read the state, subscribe, unsubscribe or
  raise, and none of them dispatches (for a listener that does, see \<open>dispatch_nested\<close>,
  of which \<open>dispatch\<close> is the case of these listeners).  On an idle store
  whose pending list is the list of the subscribed listeners in registration order, the
  dispatch of a valid action whose reducer returns invokes exactly these listeners, in
  this order, each once, unless one of them raises: then the dispatch ends with that error
  and the listeners after it are not invoked.  When no listener raises the dispatch
  returns the action.  What the listeners subscribe and unsubscribe meanwhile changes the
  pending list and the closures as it would change a single list (\<open>spec_notify\<close>): the
  listeners invoked are those of the list as it was when the dispatch began, and the
  changed list is the snapshot of the next dispatch.  That list is again the list of the
  subscribed listeners in registration order, with no function twice, when it was so
  before and no listener has subscribed a function that was subscribed at that moment.
\<close>

theorem dispatch_notifies_snapshot:
  assumes "store_ok s" and "\<not> isDispatching s" and "pending s = subscribed (closures s)"
    and "isPlainObject action" and "member h action ''type'' = Inr t"
    and "typeof t \<noteq> ''undefined''"
    and "reducer_body cb (currentReducer s) (currentState s) action = Inr v"
  shows "\<exists>r s'. dispatch h cb action s = Some (r, s') \<and> getState s' = Inr v \<and>
     (case r of
        Inr a \<Rightarrow> a = action \<and> invoked s' = invoked s @ subscribed (closures s)
      | Inl e \<Rightarrow> \<exists>n. 0 < n \<and> n \<le> length (subscribed (closures s)) \<and>
          invoked s' = invoked s @ take n (subscribed (closures s))) \<and>
     ((\<forall>l. quiet (listener_body cb l v)) \<longrightarrow> r = Inr action) \<and>
     spec_notify cb v (subscribed (closures s)) (invoked s) (subscribed (closures s), closures s) =
       ((case r of Inl e \<Rightarrow> Some e | Inr a \<Rightarrow> None), invoked s', (pending s', closures s')) \<and>
     store_ok s' \<and> \<not> isDispatching s' \<and>
     (distinct (pending s) \<and>
      subscribes_new cb v (subscribed (closures s)) (subscribed (closures s), closures s) \<longrightarrow>
        pending s' = subscribed (closures s') \<and> distinct (pending s'))"
proof -
  from dispatch_invokes_pending [OF assms(1,2,4,5,6,7)] obtain r s' where
    d: "dispatch h cb action s = Some (r, s')"
    and st: "store_ok s'" "\<not> isDispatching s'" "currentState s' = v"
    and inv: "case r of
        Inr a \<Rightarrow> a = action \<and> invoked s' = invoked s @ pending s
      | Inl e \<Rightarrow> \<exists>n. 0 < n \<and> n \<le> length (pending s) \<and>
          invoked s' = invoked s @ take n (pending s)"
    and sp: "spec_notify cb v (pending s) (invoked s) (pending s, closures s) =
       ((case r of Inl e \<Rightarrow> Some e | Inr a \<Rightarrow> None), invoked s', (pending s', closures s'))"
    by blast
  have q: "(\<forall>l. quiet (listener_body cb l v)) \<longrightarrow> r = Inr action"
  proof
    assume "\<forall>l. quiet (listener_body cb l v)"
    then have "fst (spec_notify cb v (pending s) (invoked s) (pending s, closures s)) = None"
      by (rule spec_notify_quiet)
    with sp inv show "r = Inr action"
      by (cases r) simp_all
  qed
  have keep: "distinct (pending s) \<and>
      subscribes_new cb v (subscribed (closures s)) (subscribed (closures s), closures s) \<longrightarrow>
        pending s' = subscribed (closures s') \<and> distinct (pending s')"
  proof
    assume a: "distinct (pending s) \<and>
      subscribes_new cb v (subscribed (closures s)) (subscribed (closures s), closures s)"
    have p1: "fst (pending s, closures s) = subscribed (snd (pending s, closures s))"
      and p2: "distinct (fst (pending s, closures s))"
      and p4: "subscribes_new cb v (pending s) (pending s, closures s)"
      using a assms(3) by simp_all
    from spec_notify_registered [OF p1 p2 sp p4, unfolded fst_conv snd_conv]
    show "pending s' = subscribed (closures s') \<and> distinct (pending s')" .
  qed
  have a1: "getState s' = Inr v"
    using st by (simp add: getState_def)
  have a2: "case r of
        Inr a \<Rightarrow> a = action \<and> invoked s' = invoked s @ subscribed (closures s)
      | Inl e \<Rightarrow> \<exists>n. 0 < n \<and> n \<le> length (subscribed (closures s)) \<and>
          invoked s' = invoked s @ take n (subscribed (closures s))"
    unfolding assms(3) [symmetric] by (rule inv)
  have a3: "spec_notify cb v (subscribed (closures s)) (invoked s)
        (subscribed (closures s), closures s) =
       ((case r of Inl e \<Rightarrow> Some e | Inr a \<Rightarrow> None), invoked s', (pending s', closures s'))"
    unfolding assms(3) [symmetric] by (rule sp)
  from d a1 a2 q a3 st(1,2) keep show ?thesis
    by blast
qed

theorem dispatch_notifies_snapshot_witness:
  "store_ok (example_store 0 [1, 2]) \<and> \<not> isDispatching (example_store 0 [1, 2]) \<and>
   pending (example_store 0 [1, 2]) = subscribed (closures (example_store 0 [1, 2])) \<and>
   isPlainObject INC \<and> member example_host INC ''type'' = Inr (VStr ''INC'') \<and>
   typeof (VStr ''INC'') \<noteq> ''undefined'' \<and>
   reducer_body example_callbacks 0 (VNum 0) INC = Inr (VNum 1) \<and>
   distinct (pending (example_store 0 [1, 2])) \<and>
   subscribes_new example_callbacks (VNum 1) [1, 2] ([1, 2], [(1, True), (2, True)]) \<and>
   (\<exists>s'. dispatch example_host example_callbacks INC (example_store 0 [1, 2]) =
        Some (Inr INC, s') \<and>
      getState s' = Inr (VNum 1) \<and> invoked s' = [1, 2] \<and> pending s' = [1, 3] \<and>
      closures s' = [(1, True), (2, False), (3, True)] \<and>
      pending s' = subscribed (closures s') \<and> distinct (pending s'))"
proof -
  let ?s = "example_store 0 [1, 2]"
  have h1: "store_ok ?s" and h2: "\<not> isDispatching ?s"
    and h3: "pending ?s = subscribed (closures ?s)"
    by (simp_all add: example_store_simps subscribed_def)
  have h4: "isPlainObject INC" and h5: "member example_host INC ''type'' = Inr (VStr ''INC'')"
    and h6: "typeof (VStr ''INC'') \<noteq> ''undefined''"
    by (simp_all add: INC_plain typeof_def)
  have h7: "reducer_body example_callbacks (currentReducer ?s) (currentState ?s) INC = Inr (VNum 1)"
    by (simp add: example_store_simps example_reducers)
  have sub: "subscribed (closures ?s) = [1, 2]" "closures ?s = [(1, True), (2, True)]"
    by (simp_all add: example_store_simps subscribed_def)
  have h8: "distinct (pending ?s)"
    and h9: "subscribes_new example_callbacks (VNum 1) [1, 2] ([1, 2], [(1, True), (2, True)])"
    by (simp_all add: example_store_simps example_callbacks_def spec_call_def splice1_def)
  have h9': "subscribes_new example_callbacks (VNum 1) (subscribed (closures ?s))
      (subscribed (closures ?s), closures ?s)"
    by (simp add: example_store_simps subscribed_def example_callbacks_def spec_call_def
        splice1_def)
  from dispatch_notifies_snapshot [OF h1 h2 h3 h4 h5 h6 h7] h8 h9' obtain r s' where
    d: "dispatch example_host example_callbacks INC ?s = Some (r, s')"
    and g: "getState s' = Inr (VNum 1)"
    and c: "case r of
        Inr a \<Rightarrow> a = INC \<and> invoked s' = invoked ?s @ subscribed (closures ?s)
      | Inl e \<Rightarrow> \<exists>n. 0 < n \<and> n \<le> length (subscribed (closures ?s)) \<and>
          invoked s' = invoked ?s @ take n (subscribed (closures ?s))"
    and n: "spec_notify example_callbacks (VNum 1) (subscribed (closures ?s)) (invoked ?s)
        (subscribed (closures ?s), closures ?s) =
       ((case r of Inl e \<Rightarrow> Some e | Inr a \<Rightarrow> None), invoked s', (pending s', closures s'))"
    and k: "pending s' = subscribed (closures s')" "distinct (pending s')"
    by blast
  from n have res: "(case r of Inl e \<Rightarrow> Some e | Inr a \<Rightarrow> None) = None"
    "invoked s' = [1, 2]" "pending s' = [1, 3]"
    "closures s' = [(1, True), (2, False), (3, True)]"
    by (auto simp: example_store_simps subscribed_def example_callbacks_def spec_call_def
        splice1_def)
  from res(1) c have "r = Inr INC"
    by (cases r) simp_all
  with d g res k h1 h2 h3 h4 h5 h6 h8 h9 show ?thesis
    by (simp add: example_reducers)
qed

text \<open>
  The claim as stated fails three times.  With the listeners 4 and 2 subscribed, 4
  raises and 2 is not invoked.  After 5, 6 and 5 again were subscribed and the last
  subscription was unsubscribed, the subscribed listeners are 5 and 6 in registration
  order, but the dispatch invokes 6 before 5: \<^verbatim>\<open>unsubscribe\<close> removed the first entry of 5.
  And with the listeners 1 and 2 subscribed, where 1 dispatches once more when it finds
  the state 1, each of them is invoked twice during the dispatch, and the state it
  leaves is 2, not the 1 its reducer call returned.
\<close>

theorem dispatch_notifies_counterexample:
  "pending (example_store 0 [4, 2]) = [4, 2] \<and>
   map_option fst (dispatch example_host example_callbacks INC (example_store 0 [4, 2])) =
     Some (Inl (Error ''listener failed'')) \<and>
   map_option (invoked \<circ> snd)
     (dispatch example_host example_callbacks INC (example_store 0 [4, 2])) = Some [4] \<and>
   subscribed (closures example_twice) = [5, 6] \<and>
   map_option fst (dispatch example_host example_callbacks INC example_twice) = Some (Inr INC) \<and>
   map_option (invoked \<circ> snd) (dispatch example_host example_callbacks INC example_twice) =
     Some [6, 5] \<and>
   pending (example_store 0 [1, 2]) = [1, 2] \<and>
   map_option fst
     (dispatch_nested 10 example_host example_callbacks example_steps INC
        (example_store 0 [1, 2])) = Some (Inr INC) \<and>
   map_option (invoked \<circ> snd)
     (dispatch_nested 10 example_host example_callbacks example_steps INC
        (example_store 0 [1, 2])) = Some [1, 1, 2, 2] \<and>
   map_option (getState \<circ> snd)
     (dispatch_nested 10 example_host example_callbacks example_steps INC
        (example_store 0 [1, 2])) = Some (Inr (VNum 2))"
proof -
  have plain: "pending (example_store 0 [4, 2]) = [4, 2] \<and>
   map_option fst (dispatch example_host example_callbacks INC (example_store 0 [4, 2])) =
     Some (Inl (Error ''listener failed'')) \<and>
   map_option (invoked \<circ> snd)
     (dispatch example_host example_callbacks INC (example_store 0 [4, 2])) = Some [4] \<and>
   subscribed (closures example_twice) = [5, 6] \<and>
   map_option fst (dispatch example_host example_callbacks INC example_twice) = Some (Inr INC) \<and>
   map_option (invoked \<circ> snd) (dispatch example_host example_callbacks INC example_twice) =
     Some [6, 5]"
    by (simp add: dispatch_def INC_plain typeof_def example_store_def example_callbacks_def
        example_renv_def counter_def Let_def dispatch_loop.simps call_listener_def run_call_def
        unsubscribe_def subscribe_def ensureCanMutateNextListeners_def pending_def splice1_def
        subscribed_def example_twice_def example_created_def)
  have ten: "(10::nat) = Suc (Suc (Suc (Suc (Suc (Suc (Suc (Suc (Suc (Suc 0)))))))))"
    by simp
  have nested: "\<exists>s'. dispatch_nested 10 example_host example_callbacks example_steps INC
        (example_store 0 [1, 2]) = Some (Inr INC, s') \<and> invoked s' = [1, 1, 2, 2] \<and>
      currentState s' = VNum 2 \<and> \<not> isDispatching s'"
    unfolding ten
    by (simp add: INC_plain typeof_def example_store_def example_callbacks_def
        example_renv_def counter_def Let_def example_steps_def)
  then obtain s' where n: "dispatch_nested 10 example_host example_callbacks example_steps INC
        (example_store 0 [1, 2]) = Some (Inr INC, s')" "invoked s' = [1, 1, 2, 2]"
      "currentState s' = VNum 2" "\<not> isDispatching s'"
    by blast
  have p: "pending (example_store 0 [1, 2]) = [1, 2]"
    by (simp add: example_store_def pending_def)
  from plain p n show ?thesis
    by (simp add: getState_def)
qed
section \<open>combineReducers: lemmas\<close>

lemma typeof_undefined: "typeof v = ''undefined'' \<longleftrightarrow> v = VUndefined"
  by (cases v) (simp_all add: typeof_def)

lemma assign_own_new: "k \<notin> fst ` set ps \<Longrightarrow> assign_own ps k v = ps @ [(k, v)]"
  by (induction ps) auto

lemma assign_own_keys:
  "map fst (assign_own ps k v) = (if k \<in> fst ` set ps then map fst ps else map fst ps @ [k])"
  by (induction ps) auto

lemma assign_new:
  "k \<noteq> ''__proto__'' \<Longrightarrow> k \<notin> fst ` set ps \<Longrightarrow> assign ps k v = ps @ [(k, v)]"
  by (simp add: assign_def assign_own_new)

lemma assign_proto: "assign ps ''__proto__'' v = ps"
  by (simp add: assign_def)

lemma assign_keys:
  "map fst (assign ps k v) =
     (if k = ''__proto__'' \<or> k \<in> fst ` set ps then map fst ps else map fst ps @ [k])"
  by (simp add: assign_def assign_own_keys)

lemma assign_distinct: "distinct (map fst ps) \<Longrightarrow> distinct (map fst (assign ps k v))"
  by (simp add: assign_keys)

lemma assign_no_proto:
  assumes "''__proto__'' \<notin> fst ` set ps"
  shows "''__proto__'' \<notin> fst ` set (assign ps k v)"
proof -
  have "set (map fst (assign ps k v)) \<subseteq> set (map fst ps) \<union> {k. k \<noteq> ''__proto__''}"
    by (auto simp: assign_keys)
  with assms show ?thesis
    by auto
qed

lemma kept_entries_simps:
  "kept_entries [] = []"
  "kept_entries ((k, VFun f) # ps) =
     (if k = ''__proto__'' then kept_entries ps else (k, f) # kept_entries ps)"
  "\<forall>f. v \<noteq> VFun f \<Longrightarrow> kept_entries ((k, v) # ps) = kept_entries ps"
  by (cases v; simp add: kept_entries_def)+

lemma kept_entries_keys: "fst ` set (kept_entries ps) \<subseteq> fst ` set ps - {''__proto__''}"
proof (induction ps)
  case Nil
  then show ?case by (simp add: kept_entries_def)
next
  case (Cons p ps)
  obtain k v where p: "p = (k, v)"
    by (cases p) auto
  from Cons show ?case
    by (cases v) (auto simp: p kept_entries_def)
qed

lemma kept_entries_distinct:
  assumes "distinct (map fst ps)"
  shows "distinct (map fst (kept_entries ps))"
  using assms
proof (induction ps)
  case Nil
  then show ?case by (simp add: kept_entries_def)
next
  case (Cons p ps)
  obtain k v where p: "p = (k, v)"
    by (cases p) auto
  have "k \<notin> fst ` set (kept_entries ps)"
    using Cons.prems kept_entries_keys [of ps] by (auto simp: p)
  with Cons show ?case
    by (cases v) (auto simp: p kept_entries_simps)
qed

lemma combineReducers_loop_shape:
  assumes "combineReducers_loop h reducers keys (fr, pr) = Inr (fr', pr')"
    and "distinct (map fst fr)" and "''__proto__'' \<notin> fst ` set fr"
  shows "distinct (map fst fr') \<and> ''__proto__'' \<notin> fst ` set fr'"
  using assms
proof (induction keys arbitrary: fr pr)
  case Nil
  then show ?case by simp
next
  case (Cons key keys)
  from Cons.prems(1) obtain r where r: "member h reducers key = Inr r"
    by (cases "member h reducers key") auto
  show ?case
  proof (cases r)
    case (VFun f)
    from Cons.prems(1) r VFun obtain pr1 where
      "combineReducers_loop h reducers keys (assign fr key f, pr1) = Inr (fr', pr')"
      by (simp add: Let_def)
    from Cons.IH [OF this assign_distinct [OF Cons.prems(2)] assign_no_proto [OF Cons.prems(3)]]
    show ?thesis .
  qed (use Cons.prems r in \<open>auto simp: Let_def dest: Cons.IH\<close>)
qed

lemma obj_get_own:
  assumes "map_of (props ob) k = Some v"
  shows "obj_get ob k = v"
proof -
  obtain i p ps where ob: "ob = Obj i p ps"
    by (cases ob) auto
  show ?thesis
    using assms by (cases p) (simp_all add: ob)
qed

text \<open>
  On an object, the first loop of \<open>combineReducers\<close> keeps the entries whose value is a
  function, but for the key \<^verbatim>\<open>__proto__\<close>.
\<close>

lemma combineReducers_loop_entries:
  assumes "distinct (map fst (props ob))"
    and "set qs \<subseteq> set (props ob)" and "distinct (map fst qs)"
    and "fst ` set acc \<inter> fst ` set qs = {}"
  shows "\<exists>pr'. combineReducers_loop h (VObj ob) (map fst qs) (acc, pr) =
     Inr (acc @ kept_entries qs, pr')"
  using assms(2,3,4)
proof (induction qs arbitrary: acc pr)
  case Nil
  then show ?case by (simp add: kept_entries_simps)
next
  case (Cons q qs)
  obtain k v where q: "q = (k, v)"
    by (cases q) auto
  have "(k, v) \<in> set (props ob)"
    using Cons.prems(1) q by simp
  then have "map_of (props ob) k = Some v"
    using assms(1) by simp
  then have m: "member h (VObj ob) k = Inr v"
    by (simp add: member_def obj_get_own)
  have new: "k \<notin> fst ` set acc"
    using Cons.prems(3) q by auto
  have sub: "set qs \<subseteq> set (props ob)" and d: "distinct (map fst qs)"
    and kq: "k \<notin> fst ` set qs"
    using Cons.prems(1,2) q by auto
  have disj: "fst ` set acc \<inter> fst ` set qs = {}"
    using Cons.prems(3) by auto
  show ?case
  proof (cases "\<exists>f. v = VFun f")
    case True
    then obtain f where f: "v = VFun f"
      by blast
    show ?thesis
    proof (cases "k = ''__proto__''")
      case True
      from Cons.IH [OF sub d disj] m f True q show ?thesis
        by (simp add: Let_def assign_proto kept_entries_simps)
    next
      case False
      have "fst ` set (acc @ [(k, f)]) \<inter> fst ` set qs = {}"
        using Cons.prems(3) kq by auto
      from Cons.IH [OF sub d this] m f False new q show ?thesis
        by (simp add: Let_def assign_new kept_entries_simps)
    qed
  next
    case False
    then have k: "kept_entries ((k, v) # qs) = kept_entries qs"
      by (simp add: kept_entries_simps)
    from False obtain pr1 where
      "combineReducers_loop h (VObj ob) (map fst (q # qs)) (acc, pr) =
         combineReducers_loop h (VObj ob) (map fst qs) (acc, pr1)"
      using m q by (cases v) (simp_all add: Let_def)
    with Cons.IH [OF sub d disj, of pr1] k q show ?thesis
      by simp
  qed
qed

lemma combineReducers_object:
  assumes "distinct (map fst (props ob))"
  shows "\<exists>pr. combineReducers h at renv fresh (VObj ob) =
     Inr \<lparr>finalReducers = kept_entries (props ob),
         finalReducerKeys = map fst (kept_entries (props ob)),
         unexpectedKeyCache = [],
         shapeAssertionError = assertReducerShape h at renv fresh (kept_entries (props ob)),
         printed = pr\<rparr>"
proof -
  from combineReducers_loop_entries [OF assms, of "props ob" "[]" h "[]"] assms
  obtain pr where "combineReducers_loop h (VObj ob) (map fst (props ob)) ([], []) =
      Inr (kept_entries (props ob), pr)"
    by auto
  then show ?thesis
    by (simp add: combineReducers_def Object_keys_def)
qed

lemma combineReducers_shape:
  assumes "combineReducers h at renv fresh reducers = Inr c"
  shows "finalReducerKeys c = map fst (finalReducers c) \<and> distinct (finalReducerKeys c) \<and>
     ''__proto__'' \<notin> set (finalReducerKeys c)"
proof -
  from assms obtain keys fr pr where
    loop: "combineReducers_loop h reducers keys ([], []) = Inr (fr, pr)"
    and c: "c = \<lparr>finalReducers = fr, finalReducerKeys = map fst fr, unexpectedKeyCache = [],
         shapeAssertionError = assertReducerShape h at renv fresh fr, printed = pr\<rparr>"
    by (auto simp: combineReducers_def split: sum.splits)
  from combineReducers_loop_shape [OF loop] have "distinct (map fst fr)"
    "''__proto__'' \<notin> fst ` set fr"
    by simp_all
  with c show ?thesis
    by simp
qed

text \<open>The shape check of a call returns unless a reducer called as \<^verbatim>\<open>hasOwnProperty\<close> raises.\<close>

lemma action_has_type_returns: "\<exists>b. action_has_type h action t = Inr b"
  by (cases action) (auto simp: action_has_type_def truthy_def member_def)

lemma unexpectedKeys_filter_returns:
  assumes "\<forall>key\<in>set keys. \<exists>b. hasOwnProperty renv frs key = Inr b"
  shows "\<exists>ks. unexpectedKeys_filter h renv frs cache keys = Inr ks"
  using assms
proof (induction keys)
  case Nil
  then show ?case by simp
next
  case (Cons key keys)
  then obtain b ks where "hasOwnProperty renv frs key = Inr b"
    "unexpectedKeys_filter h renv frs cache keys = Inr ks"
    by auto
  then show ?case
    by simp
qed

lemma getUnexpectedStateShapeWarningMessage_returns:
  assumes "shape_check_returns h renv c state"
    and "\<not> strict_eq (NODE_ENV h) (VStr ''production'')"
  shows "\<exists>m cache'. getUnexpectedStateShapeWarningMessage h at renv state (finalReducers c)
     action cache = (Inr m, cache')"
proof -
  obtain init replace where
    i: "action_has_type h action (INIT at) = Inr init"
    and r: "action_has_type h action (REPLACE at) = Inr replace"
    using action_has_type_returns by meson
  show ?thesis
  proof (cases "finalReducers c = []")
    case True
    with i show ?thesis
      by (simp add: getUnexpectedStateShapeWarningMessage_def)
  next
    case False
    note nonempty = this
    show ?thesis
    proof (cases "isPlainObject state")
      case False
      with i nonempty show ?thesis
        by (simp add: getUnexpectedStateShapeWarningMessage_def Let_def)
    next
      case True
      then obtain ob where ob: "state = VObj ob"
        by (cases state) (simp_all add: isPlainObject_def typeof_def)
      have keys: "Object_keys h state = Inr (map fst (props ob))"
        by (simp add: ob Object_keys_def)
      have "\<forall>key\<in>set (map fst (props ob)). \<exists>b. hasOwnProperty renv (finalReducers c) key = Inr b"
      proof (cases "map_of (finalReducers c) ''hasOwnProperty''")
        case None
        then show ?thesis
          by (simp add: hasOwnProperty_def)
      next
        case (Some f)
        with assms True ob
        have "list_all (\<lambda>key. case renv f (VStr key) VUndefined of Inl e \<Rightarrow> False | Inr v \<Rightarrow> True)
            (map fst (props ob))"
          by (simp add: shape_check_returns_def)
        then show ?thesis
          using Some by (auto simp: hasOwnProperty_def list_all_iff split: sum.splits)
      qed
      from unexpectedKeys_filter_returns [OF this, of h cache] obtain ks where
        ks: "unexpectedKeys_filter h renv (finalReducers c) cache (map fst (props ob)) = Inr ks"
        by blast
      show ?thesis
      proof (cases "replace \<or> length ks = 0")
        case True
        with \<open>isPlainObject state\<close> nonempty i r keys ks show ?thesis
          by (auto simp: getUnexpectedStateShapeWarningMessage_def Let_def)
      next
        case False
        with \<open>isPlainObject state\<close> nonempty i r keys ks show ?thesis
          by (simp add: getUnexpectedStateShapeWarningMessage_def Let_def)
      qed
    qed
  qed
qed

lemma combination_warn_returns:
  assumes "shape_check_returns h renv c state"
  shows "\<exists>cache' out'. combination_warn h at renv c state action =
     (None, c\<lparr>unexpectedKeyCache := cache', printed := out'\<rparr>)"
proof (cases "strict_eq (NODE_ENV h) (VStr ''production'')")
  case True
  then have "combination_warn h at renv c state action =
      (None, c\<lparr>unexpectedKeyCache := unexpectedKeyCache c, printed := printed c\<rparr>)"
    by (simp add: combination_warn_def)
  then show ?thesis
    by blast
next
  case False
  from getUnexpectedStateShapeWarningMessage_returns [OF assms False] obtain m cache' where
    "getUnexpectedStateShapeWarningMessage h at renv state (finalReducers c) action
       (unexpectedKeyCache c) = (Inr m, cache')"
    by blast
  with False have "combination_warn h at renv c state action =
      (None, c\<lparr>unexpectedKeyCache := cache',
          printed := (case m of None \<Rightarrow> printed c
             | Some message \<Rightarrow> if truthy (VStr message) then warning message (printed c)
                 else printed c)\<rparr>)"
    by (simp add: combination_warn_def)
  then show ?thesis
    by blast
qed

text \<open>A call of a valid closure whose shape check returns is decided by the loop.\<close>

lemma combination_checked:
  assumes "shapeAssertionError c = None" and "shape_check_returns h renv c st"
    and "st = (if state = VUndefined then object_literal h fresh [] else state)"
  shows "fst (combination h at renv c fresh state action) =
     (case combination_loop h renv (finalReducers c) st action (finalReducerKeys c) False [] of
        Inl e \<Rightarrow> Inl e
      | Inr (hasChanged, nextState) \<Rightarrow>
          Inr (if hasChanged then object_literal h (Suc fresh) nextState else st))"
proof -
  from combination_warn_returns [OF assms(2)] obtain c1 where
    "combination_warn h at renv c st action = (None, c1)"
    by blast
  with assms(1) show ?thesis
    unfolding combination_def assms(3) [symmetric] Let_def
    by (simp split: sum.splits prod.splits)
qed

lemma shape_check_returns_closure:
  "shape_check_returns h renv (c\<lparr>unexpectedKeyCache := cache, printed := out\<rparr>) state =
     shape_check_returns h renv c state"
  by (simp add: shape_check_returns_def)

text \<open>The validation loop: reducers that pass are stepped over, the first that fails decides.\<close>

lemma assertReducerShape_forEach_first:
  assumes "distinct (map fst frs)"
    and "set passed \<subseteq> set frs" and "(key, f) \<in> set frs"
    and "\<forall>(k, g)\<in>set passed. passes_validation h at (renv g)"
  shows "(undefined_on_init h at (renv f) \<longrightarrow>
       assertReducerShape_forEach h at renv frs fresh n (map fst passed @ key # ks) =
         Some (UninitializedReducerError key)) \<and>
     (undefined_on_probe h at (renv f) \<longrightarrow>
       assertReducerShape_forEach h at renv frs fresh n (map fst passed @ key # ks) =
         Some (UnknownActionHandlingError at key))"
  using assms(2,4)
proof (induction passed arbitrary: fresh n)
  case Nil
  have "map_of frs key = Some f"
    using assms(1,3) by simp
  then show ?case
    by (auto simp: undefined_on_init_def undefined_on_probe_def typeof_undefined
        dest: spec [of _ fresh] spec [of _ "Suc fresh"])
next
  case (Cons e passed)
  obtain k g where e: "e = (k, g)"
    by (cases e) auto
  have "(k, g) \<in> set frs"
    using Cons.prems(1) e by simp
  then have m: "map_of frs k = Some g"
    using assms(1) by simp
  have "passes_validation h at (renv g)"
    using Cons.prems(2) e by simp
  then obtain v w where
    v: "renv g VUndefined (init_action h at fresh) = Inr v" "v \<noteq> VUndefined"
    and w: "renv g VUndefined (probe_action h at (Suc fresh) n) = Inr w" "w \<noteq> VUndefined"
    unfolding passes_validation_def by meson
  have rest: "set passed \<subseteq> set frs" "\<forall>(k, g)\<in>set passed. passes_validation h at (renv g)"
    using Cons.prems by auto
  from Cons.IH [OF rest] m v w e show ?case
    by (simp add: typeof_undefined)
qed

lemma assertReducerShape_first:
  assumes "distinct (map fst frs)" and "frs = passed @ (key, f) # later"
    and "\<forall>(k, g)\<in>set passed. passes_validation h at (renv g)"
  shows "(undefined_on_init h at (renv f) \<longrightarrow>
       assertReducerShape h at renv fresh frs = Some (UninitializedReducerError key)) \<and>
     (undefined_on_probe h at (renv f) \<longrightarrow>
       assertReducerShape h at renv fresh frs = Some (UnknownActionHandlingError at key))"
proof -
  have "set passed \<subseteq> set frs" and "(key, f) \<in> set frs"
    using assms(2) by auto
  from assertReducerShape_forEach_first [OF assms(1) this assms(3),
      where fresh = fresh and n = 0 and ks = "map fst later"]
  show ?thesis
    by (simp add: assertReducerShape_def assms(2))
qed

text \<open>The loop of \<open>combination\<close> when every reducer returns a defined value.\<close>

lemma combination_loop_defined:
  assumes "distinct ks" and "set ks \<inter> fst ` set ns = {}" and "''__proto__'' \<notin> set ks"
    and "\<forall>k\<in>set ks. \<exists>f. map_of frs k = Some f \<and>
           renv f (obj_get ob k) action = Inr (out k) \<and> out k \<noteq> VUndefined"
  shows "combination_loop h renv frs (VObj ob) action ks hc ns =
     Inr (hc \<or> (\<exists>k\<in>set ks. \<not> strict_eq (out k) (obj_get ob k)),
          ns @ map (\<lambda>k. (k, out k)) ks)"
  using assms
proof (induction ks arbitrary: hc ns)
  case Nil
  then show ?case by simp
next
  case (Cons k ks)
  from Cons.prems(4) obtain f where f: "map_of frs k = Some f"
    "renv f (obj_get ob k) action = Inr (out k)" "out k \<noteq> VUndefined"
    by auto
  have new: "k \<notin> fst ` set ns" and np: "k \<noteq> ''__proto__''"
    using Cons.prems(2,3) by auto
  have d: "distinct ks"
    and disj: "set ks \<inter> fst ` set (ns @ [(k, out k)]) = {}"
    and p: "''__proto__'' \<notin> set ks"
    and rest: "\<forall>k\<in>set ks. \<exists>f. map_of frs k = Some f \<and>
           renv f (obj_get ob k) action = Inr (out k) \<and> out k \<noteq> VUndefined"
    using Cons.prems by auto
  from Cons.IH [OF d disj p rest] f new np show ?case
    by (auto simp: member_def typeof_undefined assign_new)
qed


lemma example_renv_simps:
  "example_renv 0 = counter" "example_renv 5 = failing" "example_renv 10 = keep"
  "example_renv 11 = always_undefined" "example_renv 12 = undefined_on ''X''"
  "example_renv 13 = undefined_untyped" "example_renv 14 = undefined_on_object"
  "example_renv 15 = unchanged"
  by (simp_all add: example_renv_def)

lemma example_validation:
  "passes_validation example_host example_types keep"
  "passes_validation example_host example_types counter"
  "passes_validation example_host example_types (undefined_on ''X'')"
  "passes_validation example_host example_types undefined_untyped"
  "passes_validation example_host example_types undefined_on_object"
  "undefined_on_init example_host example_types always_undefined"
  by (simp_all add: passes_validation_def undefined_on_init_def keep_def counter_def
      undefined_on_def undefined_untyped_def undefined_on_object_def always_undefined_def
      init_action_def probe_action_def object_literal_def member_def example_types_def
      truthy_def typeof_def)

lemma example_combined:
  "combineReducers example_host example_types example_renv 40 (VObj mapping_count) =
     Inr (valid_closure [(''count'', 0), (''label'', 10)])"
  "combineReducers example_host example_types example_renv 40 (VObj (mapping_ab 12)) =
     Inr (valid_closure [(''a'', 10), (''b'', 12)])"
  "combineReducers example_host example_types example_renv 40 (VObj (mapping_ab 13)) =
     Inr (valid_closure [(''a'', 10), (''b'', 13)])"
  "combineReducers example_host example_types example_renv 40 (VObj (mapping_ab 14)) =
     Inr (valid_closure [(''a'', 10), (''b'', 14)])"
  "combineReducers example_host example_types example_renv 40 (VObj mapping_hasOwnProperty) =
     Inr (valid_closure [(''hasOwnProperty'', 0)])"
  by (simp_all add: combineReducers_def Object_keys_def mapping_count_def mapping_ab_def
      mapping_hasOwnProperty_def valid_closure_def assign_def
      member_def Object_prototype_def assertReducerShape_def example_renv_simps keep_def
      counter_def undefined_on_def undefined_untyped_def undefined_on_object_def
      init_action_def probe_action_def
      object_literal_def example_types_def typeof_def truthy_def example_host_def)

lemma example_actions:
  "truthy action_X" "member h action_X ''type'' = Inr (VStr ''X'')"
  "truthy NOP" "member h NOP ''type'' = Inr (VStr ''NOP'')"
  "truthy untyped" "member example_host untyped ''type'' = Inr VUndefined"
  "truthy odd_typed" "member h odd_typed ''type'' = Inr (VObj (Obj 9 None []))"
  "truthy (VStr ''X'')" "truthy (VStr ''NOP'')" "\<not> truthy VUndefined"
  "truthy (VObj (Obj 9 None []))"
  "js_String h (VStr x) = Inr x"
  "js_String example_host (VObj (Obj 9 None [])) =
     Inl (TypeError ''Cannot convert object to primitive value'')"
  by (simp_all add: action_X_def NOP_def untyped_def odd_typed_def object_literal_def truthy_def
      member_def js_String_def Object_prototype_def example_host_def)

lemma example_slices:
  "member h (VObj state_ab) ''a'' = Inr (VNum 1)" "member h (VObj state_ab) ''b'' = Inr (VNum 2)"
  "member h (VObj state_a) ''a'' = Inr (VNum 1)"
  "member example_host (VObj state_a) ''b'' = Inr VUndefined"
  "obj_get state_a ''a'' = VNum 1" "obj_get state_a ''b'' = VUndefined"
  "obj_get state_hasOwnProperty ''hasOwnProperty'' = VNum 0"
  "obj_get state_count ''count'' = VNum 0" "obj_get state_count ''label'' = VStr ''x''"
  by (simp_all add: member_def state_ab_def state_a_def state_hasOwnProperty_def state_count_def
      Object_prototype_def example_host_def)

lemma example_outputs:
  "example_renv 0 (VNum n) INC = Inr (VNum (n + 1))"
  "example_renv 0 (VNum n) NOP = Inr (VNum n)"
  "example_renv 0 v VUndefined = Inl (TypeError ''Cannot read properties of undefined'')"
  "example_renv 5 v a = Inl (Error ''reducer failed'')"
  "example_renv 10 (VNum n) a = Inr (VNum n)" "example_renv 10 (VStr x) a = Inr (VStr x)"
  "example_renv 11 v a = Inr VUndefined"
  "example_renv 12 v action_X = Inr VUndefined"
  "example_renv 13 (VNum n) untyped = Inr VUndefined"
  "example_renv 14 (VNum n) odd_typed = Inr VUndefined"
  "example_renv 15 v a = Inr v"
  by (simp_all add: example_renv_simps counter_def failing_def keep_def always_undefined_def
      unchanged_def
      undefined_on_def undefined_untyped_def undefined_on_object_def INC_def NOP_def action_X_def
      untyped_def odd_typed_def object_literal_def member_def Object_prototype_def
      example_host_def truthy_def typeof_def)

lemma example_closures:
  "shapeAssertionError (valid_closure frs) = None" "finalReducers (valid_closure frs) = frs"
  "finalReducerKeys (valid_closure frs) = map fst frs"
  "(valid_closure frs)\<lparr>unexpectedKeyCache := [], printed := []\<rparr> = valid_closure frs"
  "map_of frs ''hasOwnProperty'' = None \<Longrightarrow>
     shape_check_returns example_host example_renv (valid_closure frs) state"
  by (simp_all add: valid_closure_def shape_check_returns_def)
section \<open>combineReducers: claims\<close>

text \<open>
  C3, as the code has it.  Let a reducer mapping (an object) have, among the entries that
  validation reaches (those whose value is a function), a first one that does not pass,
  and let that one return \<^verbatim>\<open>undefined\<close>, for the \<^verbatim>\<open>INIT\<close> action or for the probe.  Then
  \<^verbatim>\<open>combineReducers\<close> does not raise: it returns the combined reducer, and every call of
  it, the first and every later one, whatever the state and the action, raises the
  validation error whose message names the key of that entry, and changes nothing.
\<close>

theorem combineReducers_defers_validation_error:
  assumes "distinct (map fst (props ob))"
    and "kept_entries (props ob) = passed @ (key, f) # rest"
    and "\<forall>(k, g)\<in>set passed. passes_validation h at (renv g)"
  shows "\<exists>c. combineReducers h at renv fresh (VObj ob) = Inr c \<and>
     (undefined_on_init h at (renv f) \<longrightarrow>
        (\<forall>cache warnings fresh' state action.
           combination h at renv (c\<lparr>unexpectedKeyCache := cache, printed := warnings\<rparr>)
               fresh' state action =
             (Inl (Error (''Reducer '' @ [CHR 0x22] @ key @ [CHR 0x22] @
                 '' returned undefined during initialization. '' @
                 ''If the state passed to the reducer is undefined, you must '' @
                 ''explicitly return the initial state. The initial state may '' @
                 ''not be undefined. If you don'' @ [CHR 0x27] @
                 ''t want to set a value for this reducer, '' @
                 ''you can use null instead of undefined.'')),
              c\<lparr>unexpectedKeyCache := cache, printed := warnings\<rparr>))) \<and>
     (undefined_on_probe h at (renv f) \<longrightarrow>
        (\<forall>cache warnings fresh' state action.
           combination h at renv (c\<lparr>unexpectedKeyCache := cache, printed := warnings\<rparr>)
               fresh' state action =
             (Inl (Error (''Reducer '' @ [CHR 0x22] @ key @ [CHR 0x22] @
                 '' returned undefined when probed with a random type. '' @
                 ''Don'' @ [CHR 0x27] @ ''t try to handle '' @ INIT at @
                 '' or other actions in '' @ [CHR 0x22] @ ''redux/*'' @ [CHR 0x22] @ '' '' @
                 ''namespace. They are considered private. Instead, you must return the '' @
                 ''current state for any unknown actions, unless it is undefined, '' @
                 ''in which case you must return the initial state, regardless of the '' @
                 ''action type. The initial state may not be undefined, but can be null.'')),
              c\<lparr>unexpectedKeyCache := cache, printed := warnings\<rparr>)))"
proof -
  let ?frs = "kept_entries (props ob)"
  from combineReducers_object [OF assms(1)] obtain pr where
    c: "combineReducers h at renv fresh (VObj ob) =
      Inr \<lparr>finalReducers = ?frs, finalReducerKeys = map fst ?frs, unexpectedKeyCache = [],
          shapeAssertionError = assertReducerShape h at renv fresh ?frs, printed = pr\<rparr>"
    by blast
  let ?c = "\<lparr>finalReducers = ?frs, finalReducerKeys = map fst ?frs, unexpectedKeyCache = [],
     shapeAssertionError = assertReducerShape h at renv fresh ?frs, printed = pr\<rparr>"
  have d: "distinct (map fst ?frs)"
    by (rule kept_entries_distinct [OF assms(1)])
  note first = assertReducerShape_first [OF d assms(2,3), where fresh = fresh]
  have raises: "combination h at renv (?c\<lparr>unexpectedKeyCache := cache, printed := warnings\<rparr>)
        fresh' state action = (Inl e, ?c\<lparr>unexpectedKeyCache := cache, printed := warnings\<rparr>)"
    if "assertReducerShape h at renv fresh ?frs = Some e" for e cache warnings fresh' state action
    using that by (simp add: combination_def Let_def)
  have init: "UninitializedReducerError key =
      Error (''Reducer '' @ [CHR 0x22] @ key @ [CHR 0x22] @
                 '' returned undefined during initialization. '' @
                 ''If the state passed to the reducer is undefined, you must '' @
                 ''explicitly return the initial state. The initial state may '' @
                 ''not be undefined. If you don'' @ [CHR 0x27] @
                 ''t want to set a value for this reducer, '' @
                 ''you can use null instead of undefined.'')"
    by (simp add: UninitializedReducerError_def dq_def sq_def)
  have probe: "UnknownActionHandlingError at key =
      Error (''Reducer '' @ [CHR 0x22] @ key @ [CHR 0x22] @
                 '' returned undefined when probed with a random type. '' @
                 ''Don'' @ [CHR 0x27] @ ''t try to handle '' @ INIT at @
                 '' or other actions in '' @ [CHR 0x22] @ ''redux/*'' @ [CHR 0x22] @ '' '' @
                 ''namespace. They are considered private. Instead, you must return the '' @
                 ''current state for any unknown actions, unless it is undefined, '' @
                 ''in which case you must return the initial state, regardless of the '' @
                 ''action type. The initial state may not be undefined, but can be null.'')"
    by (simp add: UnknownActionHandlingError_def dq_def sq_def)
  show ?thesis
    unfolding c init [symmetric] probe [symmetric]
    using first raises by blast
qed

theorem combineReducers_defers_validation_error_witness:
  "distinct (map fst (props (mapping_ab 11))) \<and>
   kept_entries (props (mapping_ab 11)) = [(''a'', 10)] @ (''b'', 11) # [] \<and>
   passes_validation example_host example_types (example_renv 10) \<and>
   undefined_on_init example_host example_types (example_renv 11) \<and>
   (\<exists>c. combineReducers example_host example_types example_renv 40 (VObj (mapping_ab 11)) = Inr c \<and>
      fst (combination example_host example_types example_renv c 50 VUndefined INC) =
        Inl (Error (''Reducer '' @ [CHR 0x22] @ ''b'' @ [CHR 0x22] @
                 '' returned undefined during initialization. '' @
                 ''If the state passed to the reducer is undefined, you must '' @
                 ''explicitly return the initial state. The initial state may '' @
                 ''not be undefined. If you don'' @ [CHR 0x27] @
                 ''t want to set a value for this reducer, '' @
                 ''you can use null instead of undefined.'')) \<and>
      fst (combination example_host example_types example_renv
             (c\<lparr>unexpectedKeyCache := [(''z'', VBool True)], printed := []\<rparr>)
             60 (VObj state_ab) NOP) =
        Inl (Error (''Reducer '' @ [CHR 0x22] @ ''b'' @ [CHR 0x22] @
                 '' returned undefined during initialization. '' @
                 ''If the state passed to the reducer is undefined, you must '' @
                 ''explicitly return the initial state. The initial state may '' @
                 ''not be undefined. If you don'' @ [CHR 0x27] @
                 ''t want to set a value for this reducer, '' @
                 ''you can use null instead of undefined.'')))"
proof -
  have h1: "distinct (map fst (props (mapping_ab 11)))"
    and h2: "kept_entries (props (mapping_ab 11)) = [(''a'', 10)] @ (''b'', 11) # []"
    by (simp_all add: mapping_ab_def kept_entries_def)
  have h3: "\<forall>(k, g)\<in>set [(''a'', 10)]. passes_validation example_host example_types (example_renv g)"
    by (simp add: example_renv_simps example_validation)
  have h4: "undefined_on_init example_host example_types (example_renv 11)"
    by (simp add: example_renv_simps example_validation)
  from combineReducers_defers_validation_error [OF h1 h2 h3, where fresh = 40] h4
  obtain c where
    c: "combineReducers example_host example_types example_renv 40 (VObj (mapping_ab 11)) = Inr c"
    and every: "\<forall>cache warnings fresh' state action.
           combination example_host example_types example_renv
               (c\<lparr>unexpectedKeyCache := cache, printed := warnings\<rparr>) fresh' state action =
             (Inl (Error (''Reducer '' @ [CHR 0x22] @ ''b'' @ [CHR 0x22] @
                 '' returned undefined during initialization. '' @
                 ''If the state passed to the reducer is undefined, you must '' @
                 ''explicitly return the initial state. The initial state may '' @
                 ''not be undefined. If you don'' @ [CHR 0x27] @
                 ''t want to set a value for this reducer, '' @
                 ''you can use null instead of undefined.'')),
              c\<lparr>unexpectedKeyCache := cache, printed := warnings\<rparr>)"
    by blast
  have same: "c = c\<lparr>unexpectedKeyCache := unexpectedKeyCache c, printed := printed c\<rparr>"
    by simp
  from every [THEN spec [of _ "unexpectedKeyCache c"], THEN spec [of _ "printed c"],
      THEN spec [of _ 50], THEN spec [of _ VUndefined], THEN spec [of _ INC]] same
  have one: "fst (combination example_host example_types example_renv c 50 VUndefined INC) =
      Inl (Error (''Reducer '' @ [CHR 0x22] @ ''b'' @ [CHR 0x22] @
                 '' returned undefined during initialization. '' @
                 ''If the state passed to the reducer is undefined, you must '' @
                 ''explicitly return the initial state. The initial state may '' @
                 ''not be undefined. If you don'' @ [CHR 0x27] @
                 ''t want to set a value for this reducer, '' @
                 ''you can use null instead of undefined.''))"
    by (simp del: append.simps)
  from every [THEN spec [of _ "[(''z'', VBool True)]"], THEN spec [of _ "[]"],
      THEN spec [of _ 60], THEN spec [of _ "VObj state_ab"], THEN spec [of _ NOP]]
  have two: "fst (combination example_host example_types example_renv
             (c\<lparr>unexpectedKeyCache := [(''z'', VBool True)], printed := []\<rparr>)
             60 (VObj state_ab) NOP) =
      Inl (Error (''Reducer '' @ [CHR 0x22] @ ''b'' @ [CHR 0x22] @
                 '' returned undefined during initialization. '' @
                 ''If the state passed to the reducer is undefined, you must '' @
                 ''explicitly return the initial state. The initial state may '' @
                 ''not be undefined. If you don'' @ [CHR 0x27] @
                 ''t want to set a value for this reducer, '' @
                 ''you can use null instead of undefined.''))"
    by (simp del: append.simps)
  from h1 h2 h3 h4 c one two show ?thesis
    by (simp del: append.simps)
qed

text \<open>
  The claim as stated fails: in \<^verbatim>\<open>{a: failing, b: always_undefined}\<close> the reducer of \<^verbatim>\<open>b\<close>
  returns \<^verbatim>\<open>undefined\<close> for the \<^verbatim>\<open>INIT\<close> action, but validation stops at \<^verbatim>\<open>a\<close>, which
  raises: the error stored and raised by the calls is that of \<^verbatim>\<open>a\<close>, and it names no key.
\<close>

theorem combineReducers_validation_counterexample:
  "props mapping_failing = [(''a'', VFun 5), (''b'', VFun 11)] \<and>
   example_renv 11 VUndefined (init_action example_host example_types 40) = Inr VUndefined \<and>
   example_renv 5 VUndefined (init_action example_host example_types 40) =
     Inl (Error ''reducer failed'') \<and>
   combineReducers example_host example_types example_renv 40 (VObj mapping_failing) =
     Inr \<lparr>finalReducers = [(''a'', 5), (''b'', 11)], finalReducerKeys = [''a'', ''b''],
         unexpectedKeyCache = [], shapeAssertionError = Some (Error ''reducer failed''),
         printed = []\<rparr> \<and>
   fst (combination example_host example_types example_renv
      \<lparr>finalReducers = [(''a'', 5), (''b'', 11)], finalReducerKeys = [''a'', ''b''],
         unexpectedKeyCache = [], shapeAssertionError = Some (Error ''reducer failed''),
         printed = []\<rparr> 50 VUndefined INC) = Inl (Error ''reducer failed'')"
  by (simp add: combineReducers_def Object_keys_def mapping_failing_def assign_def
      member_def Object_prototype_def assertReducerShape_def example_renv_simps failing_def
      always_undefined_def typeof_def example_host_def combination_def)

text \<open>
  C1, as the code has it.  For a combined reducer whose validation passed, at any of its
  calls, a state object and an action for which every sub-reducer returns a defined value
  and the shape check of the call does not raise (it is skipped in the production build,
  and it calls a reducer registered under the key \<^verbatim>\<open>hasOwnProperty\<close> on the keys of a plain
  state): if every output is \<^verbatim>\<open>===\<close> its previous slice, the result is the state object
  it was given; if some output is not, the result is the object allocated for
  \<^verbatim>\<open>nextState\<close>, a new object that holds every output under its key.
\<close>

theorem combination_referential_stability:
  assumes "combineReducers h at renv fresh0 reducers = Inr c"
    and "shapeAssertionError c = None"
    and "\<forall>(k, f)\<in>set (finalReducers c).
           renv f (obj_get ob k) action = Inr (out k) \<and> out k \<noteq> VUndefined"
    and "shape_check_returns h renv c (VObj ob)"
    and "ident ob \<noteq> Suc fresh"
  shows "((\<forall>k\<in>set (finalReducerKeys c). strict_eq (out k) (obj_get ob k)) \<longrightarrow>
       fst (combination h at renv (c\<lparr>unexpectedKeyCache := cache, printed := warnings\<rparr>)
              fresh (VObj ob) action) = Inr (VObj ob)) \<and>
     ((\<exists>k\<in>set (finalReducerKeys c). \<not> strict_eq (out k) (obj_get ob k)) \<longrightarrow>
       fst (combination h at renv (c\<lparr>unexpectedKeyCache := cache, printed := warnings\<rparr>)
              fresh (VObj ob) action) =
         Inr (object_literal h (Suc fresh) (map (\<lambda>k. (k, out k)) (finalReducerKeys c))) \<and>
       \<not> strict_eq (object_literal h (Suc fresh) (map (\<lambda>k. (k, out k)) (finalReducerKeys c)))
            (VObj ob))"
proof -
  let ?c = "c\<lparr>unexpectedKeyCache := cache, printed := warnings\<rparr>"
  from combineReducers_shape [OF assms(1)]
  have keys: "finalReducerKeys c = map fst (finalReducers c)"
    and d: "distinct (finalReducerKeys c)"
    and np: "''__proto__'' \<notin> set (finalReducerKeys c)"
    by blast+
  have "\<forall>k\<in>set (finalReducerKeys c). \<exists>f. map_of (finalReducers c) k = Some f \<and>
      renv f (obj_get ob k) action = Inr (out k) \<and> out k \<noteq> VUndefined"
  proof
    fix k
    assume "k \<in> set (finalReducerKeys c)"
    then obtain f where kf: "(k, f) \<in> set (finalReducers c)"
      by (auto simp: keys)
    then have "map_of (finalReducers c) k = Some f"
      using d keys by simp
    with kf assms(3) show "\<exists>f. map_of (finalReducers c) k = Some f \<and>
        renv f (obj_get ob k) action = Inr (out k) \<and> out k \<noteq> VUndefined"
      by auto
  qed
  moreover have "set (finalReducerKeys c) \<inter> fst ` set ([] :: (string \<times> jsval) list) = {}"
    by simp
  ultimately have loop: "combination_loop h renv (finalReducers c) (VObj ob) action (finalReducerKeys c)
      False [] =
     Inr (\<exists>k\<in>set (finalReducerKeys c). \<not> strict_eq (out k) (obj_get ob k),
          map (\<lambda>k. (k, out k)) (finalReducerKeys c))"
    using combination_loop_defined [OF d _ np, where ns = "[]" and hc = False and h = h
        and frs = "finalReducers c" and renv = renv and ob = ob and action = action and out = out]
    by simp
  have v: "shapeAssertionError ?c = None" and s: "shape_check_returns h renv ?c (VObj ob)"
    using assms(2,4) by (simp_all add: shape_check_returns_closure)
  have st: "VObj ob = (if VObj ob = VUndefined then object_literal h fresh [] else VObj ob)"
    by simp
  have "fst (combination h at renv ?c fresh (VObj ob) action) =
     Inr (if \<exists>k\<in>set (finalReducerKeys c). \<not> strict_eq (out k) (obj_get ob k)
          then object_literal h (Suc fresh) (map (\<lambda>k. (k, out k)) (finalReducerKeys c))
          else VObj ob)"
    using combination_checked [OF v s st, of at action] loop by simp
  then show ?thesis
    using assms(5) by (auto simp: object_literal_def)
qed

theorem combination_referential_stability_witness:
  "combineReducers example_host example_types example_renv 40 (VObj mapping_count) =
     Inr (valid_closure [(''count'', 0), (''label'', 10)]) \<and>
   shapeAssertionError (valid_closure [(''count'', 0), (''label'', 10)]) = None \<and>
   shape_check_returns example_host example_renv (valid_closure [(''count'', 0), (''label'', 10)])
     (VObj state_count) \<and>
   example_renv 0 (obj_get state_count ''count'') INC = Inr (VNum 1) \<and>
   example_renv 10 (obj_get state_count ''label'') INC = Inr (VStr ''x'') \<and>
   \<not> strict_eq (VNum 1) (obj_get state_count ''count'') \<and>
   ident state_count \<noteq> Suc 50 \<and>
   fst (combination example_host example_types example_renv
     (valid_closure [(''count'', 0), (''label'', 10)]) 50 (VObj state_count) INC) =
     Inr (object_literal example_host 51 [(''count'', VNum 1), (''label'', VStr ''x'')]) \<and>
   example_renv 0 (obj_get state_count ''count'') NOP = Inr (VNum 0) \<and>
   example_renv 10 (obj_get state_count ''label'') NOP = Inr (VStr ''x'') \<and>
   strict_eq (VNum 0) (obj_get state_count ''count'') \<and>
   strict_eq (VStr ''x'') (obj_get state_count ''label'') \<and>
   fst (combination example_host example_types example_renv
     (valid_closure [(''count'', 0), (''label'', 10)]) 50 (VObj state_count) NOP) =
     Inr (VObj state_count)"
proof -
  let ?c = "valid_closure [(''count'', 0), (''label'', 10)]"
  let ?inc = "\<lambda>k. if k = ''count'' then VNum 1 else VStr ''x''"
  let ?nop = "\<lambda>k. if k = ''count'' then VNum 0 else VStr ''x''"
  have c: "combineReducers example_host example_types example_renv 40 (VObj mapping_count) =
      Inr ?c"
    by (rule example_combined(1))
  have v: "shapeAssertionError ?c = None"
    and s: "shape_check_returns example_host example_renv ?c (VObj state_count)"
    and fr: "finalReducers ?c = [(''count'', 0), (''label'', 10)]"
    and fk: "finalReducerKeys ?c = [''count'', ''label'']"
    and same: "?c\<lparr>unexpectedKeyCache := [], printed := []\<rparr> = ?c"
    by (simp_all add: valid_closure_def shape_check_returns_def)
  have out: "example_renv 0 (obj_get state_count ''count'') INC = Inr (VNum 1)"
    "example_renv 10 (obj_get state_count ''label'') INC = Inr (VStr ''x'')"
    "example_renv 0 (obj_get state_count ''count'') NOP = Inr (VNum 0)"
    "example_renv 10 (obj_get state_count ''label'') NOP = Inr (VStr ''x'')"
    by (simp_all add: example_renv_simps counter_def keep_def state_count_def NOP_def
        INC_def object_literal_def member_def Object_prototype_def example_host_def Let_def)
  have o1: "\<forall>(k, f)\<in>set (finalReducers ?c).
      example_renv f (obj_get state_count k) INC = Inr (?inc k) \<and> ?inc k \<noteq> VUndefined"
    using out by (simp add: fr)
  have o2: "\<forall>(k, f)\<in>set (finalReducers ?c).
      example_renv f (obj_get state_count k) NOP = Inr (?nop k) \<and> ?nop k \<noteq> VUndefined"
    using out by (simp add: fr)
  have i: "ident state_count \<noteq> Suc 50"
    by (simp add: state_count_def)
  have slices: "obj_get state_count ''count'' = VNum 0" "obj_get state_count ''label'' = VStr ''x''"
    by (simp_all add: state_count_def Object_prototype_def)
  from combination_referential_stability [OF c v o1 s i, where cache = "[]" and warnings = "[]"]
  have one: "fst (combination example_host example_types example_renv ?c 50 (VObj state_count) INC) =
      Inr (object_literal example_host 51 [(''count'', VNum 1), (''label'', VStr ''x'')])"
    unfolding same by (simp add: fk slices)
  from combination_referential_stability [OF c v o2 s i, where cache = "[]" and warnings = "[]"]
  have two: "fst (combination example_host example_types example_renv ?c 50 (VObj state_count) NOP) =
      Inr (VObj state_count)"
    unfolding same by (simp add: fk slices)
  from c v s out i one two show ?thesis
    by (simp add: slices)
qed

text \<open>
  The claim as stated fails three times.  In the development build, for the mapping
  \<^verbatim>\<open>{hasOwnProperty: counter}\<close>, the state \<^verbatim>\<open>{hasOwnProperty: 0}\<close> and the action
  \<^verbatim>\<open>{type: 'NOP'}\<close>, the one sub-reducer returns its previous slice, and the call raises:
  the shape check calls \<^verbatim>\<open>reducers.hasOwnProperty(key)\<close>, which is the counter, with no
  action.  For \<^verbatim>\<open>{a: keep, b: undefined_on('X')}\<close>, the state \<^verbatim>\<open>{a: 1}\<close> and the action
  \<^verbatim>\<open>{type: 'X'}\<close>, each output is \<^verbatim>\<open>===\<close> its previous slice (that of \<^verbatim>\<open>b\<close> is
  \<^verbatim>\<open>undefined\<close>, as the slice is), and the call raises.  And for \<^verbatim>\<open>{a: keep, b: unchanged}\<close>,
  whose validation fails, the state \<^verbatim>\<open>{a: 1, b: 2}\<close> and the action \<^verbatim>\<open>{type: 'NOP'}\<close>, each
  output is its previous slice, and the call raises the validation error.
\<close>

theorem combination_stability_counterexample:
  "combineReducers example_host example_types example_renv 40 (VObj mapping_hasOwnProperty) =
     Inr (valid_closure [(''hasOwnProperty'', 0)]) \<and>
   example_renv 0 (obj_get state_hasOwnProperty ''hasOwnProperty'') NOP = Inr (VNum 0) \<and>
   strict_eq (VNum 0) (obj_get state_hasOwnProperty ''hasOwnProperty'') \<and>
   fst (combination example_host example_types example_renv
      (valid_closure [(''hasOwnProperty'', 0)]) 50 (VObj state_hasOwnProperty) NOP) =
     Inl (TypeError ''Cannot read properties of undefined'') \<and>
   combineReducers example_host example_types example_renv 40 (VObj (mapping_ab 12)) =
     Inr (valid_closure [(''a'', 10), (''b'', 12)]) \<and>
   example_renv 10 (obj_get state_a ''a'') action_X = Inr (VNum 1) \<and>
   strict_eq (VNum 1) (obj_get state_a ''a'') \<and>
   example_renv 12 (obj_get state_a ''b'') action_X = Inr VUndefined \<and>
   strict_eq VUndefined (obj_get state_a ''b'') \<and>
   fst (combination example_host example_types example_renv
      (valid_closure [(''a'', 10), (''b'', 12)]) 50 (VObj state_a) action_X) =
     Inl (Error (''Given action '' @ [CHR 0x22] @ ''X'' @ [CHR 0x22] @ '', reducer '' @
        [CHR 0x22] @ ''b'' @ [CHR 0x22] @ '' returned undefined. '' @
        ''To ignore an action, you must explicitly return the previous state. '' @
        ''If you want this reducer to hold no value, you can return null instead of undefined.'')) \<and>
   combineReducers example_host example_types example_renv 40 (VObj (mapping_ab 15)) =
     Inr (invalid_closure [(''a'', 10), (''b'', 15)]
       (Error (''Reducer '' @ [CHR 0x22] @ ''b'' @ [CHR 0x22] @
          '' returned undefined during initialization. '' @
          ''If the state passed to the reducer is undefined, you must '' @
          ''explicitly return the initial state. The initial state may '' @
          ''not be undefined. If you don'' @ [CHR 0x27] @
          ''t want to set a value for this reducer, '' @
          ''you can use null instead of undefined.''))) \<and>
   example_renv 10 (obj_get state_ab ''a'') NOP = Inr (VNum 1) \<and>
   strict_eq (VNum 1) (obj_get state_ab ''a'') \<and>
   example_renv 15 (obj_get state_ab ''b'') NOP = Inr (VNum 2) \<and>
   strict_eq (VNum 2) (obj_get state_ab ''b'') \<and>
   fst (combination example_host example_types example_renv
      (invalid_closure [(''a'', 10), (''b'', 15)]
       (Error (''Reducer '' @ [CHR 0x22] @ ''b'' @ [CHR 0x22] @
          '' returned undefined during initialization. '' @
          ''If the state passed to the reducer is undefined, you must '' @
          ''explicitly return the initial state. The initial state may '' @
          ''not be undefined. If you don'' @ [CHR 0x27] @
          ''t want to set a value for this reducer, '' @
          ''you can use null instead of undefined.''))) 50 (VObj state_ab) NOP) =
     Inl (Error (''Reducer '' @ [CHR 0x22] @ ''b'' @ [CHR 0x22] @
          '' returned undefined during initialization. '' @
          ''If the state passed to the reducer is undefined, you must '' @
          ''explicitly return the initial state. The initial state may '' @
          ''not be undefined. If you don'' @ [CHR 0x27] @
          ''t want to set a value for this reducer, '' @
          ''you can use null instead of undefined.''))"
proof -
  have one: "fst (combination example_host example_types example_renv
      (valid_closure [(''hasOwnProperty'', 0)]) 50 (VObj state_hasOwnProperty) NOP) =
     Inl (TypeError ''Cannot read properties of undefined'')"
    by (simp add: combination_def combination_warn_def valid_closure_def
        getUnexpectedStateShapeWarningMessage_def action_has_type_def example_actions
        example_types_def state_hasOwnProperty_def isPlainObject_def
        typeof_def getPrototypeOf_def Object_prototype_def Object_keys_def hasOwnProperty_def
        example_outputs example_host_def)
  have s: "shape_check_returns example_host example_renv (valid_closure [(''a'', 10), (''b'', 12)])
      (VObj state_a)"
    by (simp add: example_closures)
  have "fst (combination example_host example_types example_renv
      (valid_closure [(''a'', 10), (''b'', 12)]) 50 (VObj state_a) action_X) =
     (case combination_loop example_host example_renv [(''a'', 10), (''b'', 12)] (VObj state_a)
             action_X [''a'', ''b''] False [] of
        Inl e \<Rightarrow> Inl e
      | Inr (hasChanged, nextState) \<Rightarrow>
          Inr (if hasChanged then object_literal example_host (Suc 50) nextState
               else VObj state_a))"
    using combination_checked [OF _ s, where state = "VObj state_a" and fresh = 50
        and at = example_types and action = action_X]
    by (simp add: example_closures)
  also have "\<dots> = Inl (Error (''Given action '' @ [CHR 0x22] @ ''X'' @ [CHR 0x22] @ '', reducer '' @
        [CHR 0x22] @ ''b'' @ [CHR 0x22] @ '' returned undefined. '' @
        ''To ignore an action, you must explicitly return the previous state. '' @
        ''If you want this reducer to hold no value, you can return null instead of undefined.''))"
    by (simp add: example_slices example_outputs example_actions typeof_def assign_def
        getUndefinedStateErrorMessage_def dq_def)
  finally have two: "fst (combination example_host example_types example_renv
      (valid_closure [(''a'', 10), (''b'', 12)]) 50 (VObj state_a) action_X) =
     Inl (Error (''Given action '' @ [CHR 0x22] @ ''X'' @ [CHR 0x22] @ '', reducer '' @
        [CHR 0x22] @ ''b'' @ [CHR 0x22] @ '' returned undefined. '' @
        ''To ignore an action, you must explicitly return the previous state. '' @
        ''If you want this reducer to hold no value, you can return null instead of undefined.''))" .
  have three: "combineReducers example_host example_types example_renv 40 (VObj (mapping_ab 15)) =
     Inr (invalid_closure [(''a'', 10), (''b'', 15)]
       (Error (''Reducer '' @ [CHR 0x22] @ ''b'' @ [CHR 0x22] @
          '' returned undefined during initialization. '' @
          ''If the state passed to the reducer is undefined, you must '' @
          ''explicitly return the initial state. The initial state may '' @
          ''not be undefined. If you don'' @ [CHR 0x27] @
          ''t want to set a value for this reducer, '' @
          ''you can use null instead of undefined.'')))"
    by (simp add: combineReducers_def Object_keys_def mapping_ab_def invalid_closure_def
        assign_def member_def Object_prototype_def assertReducerShape_def example_renv_simps
        keep_def unchanged_def UninitializedReducerError_def dq_def sq_def
        init_action_def probe_action_def object_literal_def typeof_def example_host_def)
  have four: "fst (combination example_host example_types example_renv
      (invalid_closure [(''a'', 10), (''b'', 15)]
       (Error (''Reducer '' @ [CHR 0x22] @ ''b'' @ [CHR 0x22] @
          '' returned undefined during initialization. '' @
          ''If the state passed to the reducer is undefined, you must '' @
          ''explicitly return the initial state. The initial state may '' @
          ''not be undefined. If you don'' @ [CHR 0x27] @
          ''t want to set a value for this reducer, '' @
          ''you can use null instead of undefined.''))) 50 (VObj state_ab) NOP) =
     Inl (Error (''Reducer '' @ [CHR 0x22] @ ''b'' @ [CHR 0x22] @
          '' returned undefined during initialization. '' @
          ''If the state passed to the reducer is undefined, you must '' @
          ''explicitly return the initial state. The initial state may '' @
          ''not be undefined. If you don'' @ [CHR 0x27] @
          ''t want to set a value for this reducer, '' @
          ''you can use null instead of undefined.''))"
    by (simp add: combination_def invalid_closure_def del: append.simps)
  have slices: "obj_get state_ab ''a'' = VNum 1" "obj_get state_ab ''b'' = VNum 2"
    by (simp_all add: state_ab_def)
  from one two three four example_combined(2,5) show ?thesis
    by (simp add: example_slices example_outputs slices del: append.simps)
qed



section \<open>bindActionCreators\<close>









section \<open>Scenarios\<close>

text \<open>The example stores are stores the code builds.\<close>

lemma example_created_reachable:
  "createStore example_host example_types example_callbacks 1 (VFun 0) VUndefined VUndefined =
     Some (Inr (Store example_created))"
  by (simp add: createStore_def typeof_def Let_def dispatch_def init_action_def object_literal_def
      Object_prototype_def isPlainObject_def getPrototypeOf_def member_def example_types_def
      example_callbacks_def example_renv_def counter_def example_host_def dispatch_loop.simps
      example_created_def)

lemma example_store_reachable:
  "snd (subscribe (VFun 2) (snd (subscribe (VFun 1) example_created))) = example_store 0 [1, 2]"
  "snd (subscribe (VFun 2) (snd (subscribe (VFun 4) example_created))) = example_store 0 [4, 2]"
  "snd (subscribe (VFun 3) (snd (subscribe (VFun 2) example_created))) = example_store 0 [2, 3]"
  by (simp_all add: subscribe_def ensureCanMutateNextListeners_def example_store_def
      example_created_def Let_def fun_eq_iff)

lemma example_store_failing_reachable:
  "replaceReducer example_host example_types example_callbacks 9 (VFun 5) (example_store 0 [1, 2]) =
     Some (Inl (Error ''reducer failed''), example_store 5 [1, 2])"
  by (simp add: replaceReducer_def dispatch_def replace_action_def object_literal_def
      Object_prototype_def isPlainObject_def getPrototypeOf_def member_def typeof_def
      example_types_def example_callbacks_def example_renv_def failing_def example_store_def
      Let_def)

text \<open>
  The end-to-end scenario of the specification: a store of the counter, two dispatches of
  \<^verbatim>\<open>{type: 'INC'}\<close>, and \<^verbatim>\<open>getState()\<close> is 2.
\<close>

lemma counter_scenario:
  "\<exists>s1 s2.
     dispatch example_host example_callbacks INC example_created = Some (Inr INC, s1) \<and>
     dispatch example_host example_callbacks INC s1 = Some (Inr INC, s2) \<and>
     getState example_created = Inr (VNum 0) \<and> getState s2 = Inr (VNum 2)"
  by (simp add: typeof_def Let_def dispatch_def INC_plain example_callbacks_def example_renv_def
      counter_def dispatch_loop.simps getState_def example_created_def)

text \<open>
  The subscription scenario of the specification: A (1) and B (2) are subscribed; inside
  A's callback B is unsubscribed and C (3) subscribed.  The first dispatch invokes A and
  B, the second A and C.
\<close>

lemma snapshot_scenario:
  "\<exists>s1 s2.
     dispatch example_host example_callbacks INC (example_store 0 [1, 2]) = Some (Inr INC, s1) \<and>
     invoked s1 = [1, 2] \<and>
     dispatch example_host example_callbacks INC s1 = Some (Inr INC, s2) \<and>
     invoked s2 = [1, 2, 1, 3]"
  by (simp add: dispatch_def INC_plain typeof_def example_store_def example_callbacks_def
      example_renv_def counter_def Let_def dispatch_loop.simps call_listener_def run_call_def
      unsubscribe_def subscribe_def ensureCanMutateNextListeners_def pending_def splice1_def)

text \<open>A second call of an \<^verbatim>\<open>unsubscribe\<close> closure does nothing, whatever the state of the store.\<close>

lemma unsubscribe_twice:
  assumes "unsubscribe k s = (None, s')" and "k < length (closures s)" and "snd (closures s ! k)"
  shows "unsubscribe k s' = (None, s')"
  using assms
  by (auto simp: unsubscribe_def Let_def ensure_frame split: if_splits)

text \<open>On a well-formed store every dispatch returns.\<close>

lemma dispatch_returns:
  assumes "store_ok s"
  shows "\<exists>r s'. dispatch h cb action s = Some (r, s') \<and> store_ok s' \<and>
     isDispatching s' = isDispatching s"
proof (cases "isPlainObject action \<and> \<not> isDispatching s \<and>
    (\<exists>t. member h action ''type'' = Inr t \<and> typeof t \<noteq> ''undefined'')")
  case True
  then obtain t where t: "member h action ''type'' = Inr t" "typeof t \<noteq> ''undefined''"
    and plain: "isPlainObject action" and idle: "\<not> isDispatching s"
    by blast
  show ?thesis
  proof (cases "reducer_body cb (currentReducer s) (currentState s) action")
    case (Inl e)
    with dispatch_checked [OF plain t idle, of cb] assms idle show ?thesis
      by simp
  next
    case (Inr v)
    from dispatch_invokes_pending [OF assms idle plain t Inr] idle show ?thesis
      by auto
  qed
next
  case False
  then show ?thesis
    using assms by (auto simp: dispatch_def split: sum.splits)
qed

end
